theory Spec2Isabelle
  imports
    Main
    "HOL-Library.Word"
    "HOL-Library.Multiset"
    "HOL-Library.Signed_Division"
    "HOL-Library.Char_ord"
    "HOL-Library.List_Lexorder"
begin

section \<open>Slices, indices and run-time panics\<close>

text \<open>
  The package \<^verbatim>\<open>algorithms\<close> sorts Go slices in place. A slice is modelled by the list of
  its elements and every function returns the new contents. Go's \<^verbatim>\<open>int\<close> indices are
  modelled by \<^typ>\<open>int\<close> (a slice is shorter than \<open>2^63\<close>, so index arithmetic on valid
  indices does not wrap); \<^verbatim>\<open>uint\<close> values are 64-bit words. An index outside the slice, a
  division by zero and an impossible \<^verbatim>\<open>make\<close> are run-time panics: they are values of
  the type \<open>panic\<close>, and a function that panics returns \<open>Inl\<close>.
\<close>

datatype panic = IndexOutOfRange | DivideByZero | MakeLenOutOfRange | MaxOfEmptySlice

type_synonym 'a result = "panic + 'a"

definition then_do :: "'a result \<Rightarrow> ('a \<Rightarrow> 'b result) \<Rightarrow> 'b result" where
  "then_do r f = (case r of Inl e \<Rightarrow> Inl e | Inr x \<Rightarrow> f x)"

abbreviation len :: "'a list \<Rightarrow> int" where
  "len vec \<equiv> int (length vec)"

definition inb :: "'a list \<Rightarrow> int \<Rightarrow> bool" where
  "inb vec i \<longleftrightarrow> 0 \<le> i \<and> i < len vec"

definition idx :: "'a list \<Rightarrow> int \<Rightarrow> 'a" where
  "idx vec i = vec ! nat i"

definition upd :: "'a list \<Rightarrow> int \<Rightarrow> 'a \<Rightarrow> 'a list" where
  "upd vec i v = vec[nat i := v]"

text \<open>\<^verbatim>\<open>vec[i], vec[j] = vec[j], vec[i]\<close>: both right-hand sides are read first, then the
  two assignments happen from left to right. Callers check both indices before.\<close>

definition swap :: "'a list \<Rightarrow> int \<Rightarrow> int \<Rightarrow> 'a list" where
  "swap vec i j = upd (upd vec i (idx vec j)) j (idx vec i)"

text \<open>\<^verbatim>\<open>copy(dst, src)\<close> copies \<open>min(len(dst), len(src))\<close> elements.\<close>

definition copy :: "'a list \<Rightarrow> 'a list \<Rightarrow> 'a list" where
  "copy dst src = (let n = min (length dst) (length src) in take n src @ drop n dst)"

lemma then_do_cong [fundef_cong]:
  "r = r' \<Longrightarrow> (\<And>x. r' = Inr x \<Longrightarrow> f x = f' x) \<Longrightarrow> then_do r f = then_do r' f'"
  by (auto simp: then_do_def split: sum.splits)

lemma then_do_Inr [simp]: "then_do (Inr x) f = f x"
  by (simp add: then_do_def)

lemma then_do_Inl [simp]: "then_do (Inl e) f = Inl e"
  by (simp add: then_do_def)

lemma then_do_eq_Inr:
  "then_do r f = Inr y \<longleftrightarrow> (\<exists>x. r = Inr x \<and> f x = Inr y)"
  by (cases r) auto

lemma length_upd [simp]: "length (upd vec i v) = length vec"
  by (simp add: upd_def)

lemma length_swap [simp]: "length (swap vec i j) = length vec"
  by (simp add: swap_def)

lemma inb_upd [simp]: "inb (upd vec i v) k = inb vec k"
  by (simp add: inb_def)

lemma inb_swap [simp]: "inb (swap vec i j) k = inb vec k"
  by (simp add: inb_def)

section \<open>Elementary comparison sorts\<close>

text \<open>\<^verbatim>\<open>SimpleSort\<close>, lines 18-28. The element type is any type with \<open><\<close> and \<open>\<le>\<close>
  (class \<open>ord\<close>), as Go's constraint \<^verbatim>\<open>Ordered\<close>; \<open>a > b\<close> is \<open>b < a\<close>.\<close>

function SimpleSort_inner :: "'a::ord list \<Rightarrow> int \<Rightarrow> int \<Rightarrow> 'a list result" where
  "SimpleSort_inner vec i j =
     (if j < len vec then
        if \<not> inb vec j \<or> \<not> inb vec i then Inl IndexOutOfRange
        else SimpleSort_inner (if idx vec j < idx vec i then swap vec i j else vec) i (j + 1)
      else Inr vec)"
  by pat_completeness auto
termination
  by (relation "measure (\<lambda>(vec, i, j). nat (len vec - j))") auto

declare SimpleSort_inner.simps [simp del]

lemma SimpleSort_inner_length:
  "SimpleSort_inner vec i j = Inr vec' \<Longrightarrow> length vec' = length vec"
  by (induction vec i j rule: SimpleSort_inner.induct)
     (subst (asm) SimpleSort_inner.simps, auto split: if_splits)

function SimpleSort_outer :: "'a::ord list \<Rightarrow> int \<Rightarrow> 'a list result" where
  "SimpleSort_outer vec i =
     (if i < len vec - 1 then
        then_do (SimpleSort_inner vec i (i + 1)) (\<lambda>vec'. SimpleSort_outer vec' (i + 1))
      else Inr vec)"
  by pat_completeness auto
termination
  by (relation "measure (\<lambda>(vec, i). nat (len vec - i))")
     (auto dest: SimpleSort_inner_length)

declare SimpleSort_outer.simps [simp del]

definition SimpleSort :: "'a::ord list \<Rightarrow> 'a list result" where
  "SimpleSort vec = SimpleSort_outer vec 0"

text \<open>\<^verbatim>\<open>SelectionSort\<close>, lines 35-49. The inner loop returns \<^verbatim>\<open>minIndex\<close>.\<close>

function SelectionSort_inner :: "'a::ord list \<Rightarrow> int \<Rightarrow> int \<Rightarrow> int result" where
  "SelectionSort_inner vec minIndex j =
     (if j < len vec then
        if \<not> inb vec j \<or> \<not> inb vec minIndex then Inl IndexOutOfRange
        else SelectionSort_inner vec (if idx vec j < idx vec minIndex then j else minIndex) (j + 1)
      else Inr minIndex)"
  by pat_completeness auto
termination
  by (relation "measure (\<lambda>(vec, m, j). nat (len vec - j))") auto

declare SelectionSort_inner.simps [simp del]

function SelectionSort_outer :: "'a::ord list \<Rightarrow> int \<Rightarrow> 'a list result" where
  "SelectionSort_outer vec i =
     (if i < len vec - 1 then
        then_do (SelectionSort_inner vec i (i + 1)) (\<lambda>minIndex.
          if minIndex \<noteq> i then
            if \<not> inb vec i \<or> \<not> inb vec minIndex then Inl IndexOutOfRange
            else SelectionSort_outer (swap vec i minIndex) (i + 1)
          else SelectionSort_outer vec (i + 1))
      else Inr vec)"
  by pat_completeness auto
termination
  by (relation "measure (\<lambda>(vec, i). nat (len vec - i))") auto

declare SelectionSort_outer.simps [simp del]

definition SelectionSort :: "'a::ord list \<Rightarrow> 'a list result" where
  "SelectionSort vec = SelectionSort_outer vec 0"

text \<open>\<^verbatim>\<open>BubbleSort\<close>, lines 52-66. The inner loop returns the slice and \<^verbatim>\<open>swapped\<close>;
  \<^verbatim>\<open>break\<close> leaves the outer loop.\<close>

function BubbleSort_inner :: "'a::ord list \<Rightarrow> int \<Rightarrow> int \<Rightarrow> bool \<Rightarrow> ('a list \<times> bool) result" where
  "BubbleSort_inner vec i j swapped =
     (if j < len vec - 1 - i then
        if \<not> inb vec j \<or> \<not> inb vec (j + 1) then Inl IndexOutOfRange
        else if idx vec j > idx vec (j + 1)
          then BubbleSort_inner (swap vec j (j + 1)) i (j + 1) True
          else BubbleSort_inner vec i (j + 1) swapped
      else Inr (vec, swapped))"
  by pat_completeness auto
termination
  by (relation "measure (\<lambda>(vec, i, j, s). nat (len vec - j))") (auto simp: inb_def)

declare BubbleSort_inner.simps [simp del]

lemma BubbleSort_inner_length:
  "BubbleSort_inner vec i j s = Inr (vec', s') \<Longrightarrow> length vec' = length vec"
  by (induction vec i j s rule: BubbleSort_inner.induct)
     (subst (asm) (2) BubbleSort_inner.simps, auto split: if_splits)

function BubbleSort_outer :: "'a::ord list \<Rightarrow> int \<Rightarrow> 'a list result" where
  "BubbleSort_outer vec i =
     (if i < len vec - 1 then
        then_do (BubbleSort_inner vec i 0 False) (\<lambda>(vec', swapped).
          if \<not> swapped then Inr vec' else BubbleSort_outer vec' (i + 1))
      else Inr vec)"
  by pat_completeness auto
termination
  by (relation "measure (\<lambda>(vec, i). nat (len vec - i))")
     (auto dest: BubbleSort_inner_length)

declare BubbleSort_outer.simps [simp del]

definition BubbleSort :: "'a::ord list \<Rightarrow> 'a list result" where
  "BubbleSort vec = BubbleSort_outer vec 0"

text \<open>\<^verbatim>\<open>InsertionSort\<close>, lines 69-76. \<^verbatim>\<open>j > 0 && vec[j] < vec[j-1]\<close> reads the slice
  only when \<open>j > 0\<close>.\<close>

function InsertionSort_inner :: "'a::ord list \<Rightarrow> int \<Rightarrow> 'a list result" where
  "InsertionSort_inner vec j =
     (if j > 0 then
        if \<not> inb vec j \<or> \<not> inb vec (j - 1) then Inl IndexOutOfRange
        else if idx vec j < idx vec (j - 1)
          then InsertionSort_inner (swap vec j (j - 1)) (j - 1)
          else Inr vec
      else Inr vec)"
  by pat_completeness auto
termination
  by (relation "measure (\<lambda>(vec, j). nat j)") auto

declare InsertionSort_inner.simps [simp del]

lemma InsertionSort_inner_length:
  "InsertionSort_inner vec j = Inr vec' \<Longrightarrow> length vec' = length vec"
  by (induction vec j rule: InsertionSort_inner.induct)
     (subst (asm) (2) InsertionSort_inner.simps, auto split: if_splits)

function InsertionSort_outer :: "'a::ord list \<Rightarrow> int \<Rightarrow> 'a list result" where
  "InsertionSort_outer vec i =
     (if i < len vec then
        then_do (InsertionSort_inner vec i) (\<lambda>vec'. InsertionSort_outer vec' (i + 1))
      else Inr vec)"
  by pat_completeness auto
termination
  by (relation "measure (\<lambda>(vec, i). nat (len vec - i))")
     (auto dest: InsertionSort_inner_length)

declare InsertionSort_outer.simps [simp del]

definition InsertionSort :: "'a::ord list \<Rightarrow> 'a list result" where
  "InsertionSort vec = InsertionSort_outer vec 1"

section \<open>Divide-and-conquer sorts\<close>

text \<open>\<^verbatim>\<open>merge\<close>, lines 101-130: the four loops in turn. The first three fill \<^verbatim>\<open>tmp\<close> and
  return it with the counters, the last copies \<^verbatim>\<open>tmp[start..end]\<close> back.\<close>

function merge_both :: "'a::ord list \<Rightarrow> 'a list \<Rightarrow> int \<Rightarrow> int \<Rightarrow> int \<Rightarrow> int \<Rightarrow> int \<Rightarrow>
    ('a list \<times> int \<times> int \<times> int) result" where
  "merge_both vec tmp i j k mid end' =
     (if i \<le> mid \<and> j \<le> end' then
        if \<not> inb vec i \<or> \<not> inb vec j then Inl IndexOutOfRange
        else if idx vec i \<le> idx vec j then
          if \<not> inb tmp k then Inl IndexOutOfRange
          else merge_both vec (upd tmp k (idx vec i)) (i + 1) j (k + 1) mid end'
        else
          if \<not> inb tmp k then Inl IndexOutOfRange
          else merge_both vec (upd tmp k (idx vec j)) i (j + 1) (k + 1) mid end'
      else Inr (tmp, i, j, k))"
  by pat_completeness auto
termination
  by (relation "measure (\<lambda>(vec, tmp, i, j, k, mid, e). nat (mid + 1 - i) + nat (e + 1 - j))") auto

declare merge_both.simps [simp del]

function merge_rest :: "'a list \<Rightarrow> 'a list \<Rightarrow> int \<Rightarrow> int \<Rightarrow> int \<Rightarrow> ('a list \<times> int) result" where
  "merge_rest vec tmp i k bound =
     (if i \<le> bound then
        if \<not> inb vec i \<or> \<not> inb tmp k then Inl IndexOutOfRange
        else merge_rest vec (upd tmp k (idx vec i)) (i + 1) (k + 1) bound
      else Inr (tmp, k))"
  by pat_completeness auto
termination
  by (relation "measure (\<lambda>(vec, tmp, i, k, bound). nat (bound + 1 - i))") auto

declare merge_rest.simps [simp del]

function merge_back :: "'a list \<Rightarrow> 'a list \<Rightarrow> int \<Rightarrow> int \<Rightarrow> 'a list result" where
  "merge_back vec tmp i end' =
     (if i \<le> end' then
        if \<not> inb tmp i \<or> \<not> inb vec i then Inl IndexOutOfRange
        else merge_back (upd vec i (idx tmp i)) tmp (i + 1) end'
      else Inr vec)"
  by pat_completeness auto
termination
  by (relation "measure (\<lambda>(vec, tmp, i, e). nat (e + 1 - i))") auto

declare merge_back.simps [simp del]

definition merge :: "'a::ord list \<Rightarrow> 'a list \<Rightarrow> int \<Rightarrow> int \<Rightarrow> int \<Rightarrow> ('a list \<times> 'a list) result" where
  "merge vec tmp start mid end' =
     then_do (merge_both vec tmp start (mid + 1) start mid end') (\<lambda>(tmp1, i, j, k).
     then_do (merge_rest vec tmp1 i k mid) (\<lambda>(tmp2, k2).
     then_do (merge_rest vec tmp2 j k2 end') (\<lambda>(tmp3, k3).
     then_do (merge_back vec tmp3 start end') (\<lambda>vec'. Inr (vec', tmp3)))))"

text \<open>\<^verbatim>\<open>mergeSortHelper\<close>, lines 90-99. Go's \<^verbatim>\<open>/\<close> on \<^verbatim>\<open>int\<close> truncates towards zero
  (\<open>sdiv\<close>).\<close>

function mergeSortHelper :: "'a::ord list \<Rightarrow> 'a list \<Rightarrow> int \<Rightarrow> int \<Rightarrow> ('a list \<times> 'a list) result" where
  "mergeSortHelper vec tmp start end' =
     (if start \<ge> end' then Inr (vec, tmp)
      else
        let mid = start + (end' - start) sdiv 2 in
        then_do (mergeSortHelper vec tmp start mid) (\<lambda>(vec1, tmp1).
        then_do (mergeSortHelper vec1 tmp1 (mid + 1) end') (\<lambda>(vec2, tmp2).
        merge vec2 tmp2 start mid end')))"
  by pat_completeness auto
termination
  by (relation "measure (\<lambda>(vec, tmp, s, e). nat (e - s))")
     (auto simp: signed_divide_int_def sgn_if)

declare mergeSortHelper.simps [simp del]

text \<open>\<^verbatim>\<open>MergeSort\<close>, lines 79-88. \<^verbatim>\<open>make([]T, len(vec))\<close> fills \<^verbatim>\<open>tmp\<close> with the zero value
  of \<^verbatim>\<open>T\<close>, which the instantiation of the generic function supplies: the parameter \<open>z\<close>.\<close>

definition MergeSort :: "'a::ord \<Rightarrow> 'a list \<Rightarrow> 'a list result" where
  "MergeSort z vec =
     (if len vec \<le> 1 then Inr vec
      else
        let tmp = replicate (length vec) z in
        then_do (mergeSortHelper vec tmp 0 (len vec - 1)) (\<lambda>(vec', tmp'). Inr vec'))"

text \<open>\<^verbatim>\<open>medianOfThree\<close>, lines 172-180.\<close>

definition medianOfThree :: "'a::ord list \<Rightarrow> int \<Rightarrow> int \<Rightarrow> int \<Rightarrow> int result" where
  "medianOfThree vec i j k =
     (if \<not> inb vec i \<or> \<not> inb vec j \<or> \<not> inb vec k then Inl IndexOutOfRange
      else if (idx vec i > idx vec j) \<noteq> (idx vec i > idx vec k) then Inr i
      else if (idx vec j > idx vec i) \<noteq> (idx vec j > idx vec k) then Inr j
      else Inr k)"

text \<open>\<^verbatim>\<open>partition\<close>, lines 153-170: the scan of lines 161-166 first.\<close>

function partition_loop :: "'a::ord list \<Rightarrow> 'a \<Rightarrow> int \<Rightarrow> int \<Rightarrow> int \<Rightarrow> ('a list \<times> int) result" where
  "partition_loop vec pivot i j end' =
     (if j < end' then
        if \<not> inb vec j then Inl IndexOutOfRange
        else if idx vec j \<le> pivot then
          if \<not> inb vec (i + 1) then Inl IndexOutOfRange
          else partition_loop (swap vec (i + 1) j) pivot (i + 1) (j + 1) end'
        else partition_loop vec pivot i (j + 1) end'
      else Inr (vec, i))"
  by pat_completeness auto
termination
  by (relation "measure (\<lambda>(vec, pivot, i, j, e). nat (e - j))") auto

declare partition_loop.simps [simp del]

definition partition :: "'a::ord list \<Rightarrow> int \<Rightarrow> int \<Rightarrow> ('a list \<times> int) result" where
  "partition vec start end' =
     (let mid = start + (end' - start) sdiv 2 in
      then_do (medianOfThree vec start mid end') (\<lambda>pivotIndex.
        if \<not> inb vec pivotIndex \<or> \<not> inb vec end' then Inl IndexOutOfRange
        else
          let vec1 = swap vec pivotIndex end';
              pivot = idx vec1 end';
              i = start - 1
          in
          then_do (partition_loop vec1 pivot i start end') (\<lambda>(vec2, i').
            if \<not> inb vec2 (i' + 1) \<or> \<not> inb vec2 end' then Inl IndexOutOfRange
            else Inr (swap vec2 (i' + 1) end', i' + 1))))"

lemma partition_loop_bounds:
  "partition_loop vec pivot i j e = Inr (vec', i') \<Longrightarrow> j \<le> e \<Longrightarrow> i \<le> i' \<and> i' - i \<le> e - j"
  by (induction vec pivot i j e rule: partition_loop.induct)
     (subst (asm) (3) partition_loop.simps, force split: if_splits)

lemma partition_bounds:
  "partition vec start e = Inr (vec', p) \<Longrightarrow> start \<le> e \<Longrightarrow> start \<le> p \<and> p \<le> e"
  by (auto simp: partition_def Let_def then_do_eq_Inr split: if_splits dest!: partition_loop_bounds)

text \<open>\<^verbatim>\<open>quickSortHelper\<close> and \<^verbatim>\<open>QuickSort\<close>, lines 135-151.\<close>

function quickSortHelper :: "'a::ord list \<Rightarrow> int \<Rightarrow> int \<Rightarrow> 'a list result" where
  "quickSortHelper vec start end' =
     (if start \<ge> end' then Inr vec
      else
        then_do (partition vec start end') (\<lambda>(vec1, pivot).
        then_do (quickSortHelper vec1 start (pivot - 1)) (\<lambda>vec2.
        quickSortHelper vec2 (pivot + 1) end')))"
  by pat_completeness auto
termination
  by (relation "measure (\<lambda>(vec, s, e). nat (e - s))")
     (auto dest!: partition_bounds)

declare quickSortHelper.simps [simp del]

definition QuickSort :: "'a::ord list \<Rightarrow> 'a list result" where
  "QuickSort vec = (if len vec \<le> 1 then Inr vec else quickSortHelper vec 0 (len vec - 1))"

section \<open>Heap sort\<close>

text \<open>\<^verbatim>\<open>heapify\<close>, lines 201-218. \<^verbatim>\<open>left < n && vec[left] > vec[largest]\<close> reads the slice
  only when \<open>left < n\<close>.\<close>

function heapify :: "'a::ord list \<Rightarrow> int \<Rightarrow> int \<Rightarrow> 'a list result" where
  "heapify vec i n =
     (let left = 2 * i + 1; right = 2 * i + 2 in
      if left < n \<and> (\<not> inb vec left \<or> \<not> inb vec i) then Inl IndexOutOfRange
      else
        let largest = (if left < n \<and> idx vec left > idx vec i then left else i) in
        if right < n \<and> (\<not> inb vec right \<or> \<not> inb vec largest) then Inl IndexOutOfRange
        else
          let largest' = (if right < n \<and> idx vec right > idx vec largest then right else largest) in
          if largest' \<noteq> i then
            if \<not> inb vec i \<or> \<not> inb vec largest' then Inl IndexOutOfRange
            else heapify (swap vec i largest') largest' n
          else Inr vec)"
  by pat_completeness auto
termination
  by (relation "measure (\<lambda>(vec, i, n). nat (n - i))")
     (auto simp: inb_def split: if_splits)

declare heapify.simps [simp del]

lemma heapify_length:
  "heapify vec i n = Inr vec' \<Longrightarrow> length vec' = length vec"
  by (induction vec i n rule: heapify.induct)
     (subst (asm) (2) heapify.simps, auto simp: Let_def split: if_splits)

text \<open>\<^verbatim>\<open>buildHeap\<close>, lines 193-198, and \<^verbatim>\<open>HeapSort\<close>, lines 184-191.\<close>

function buildHeap_loop :: "'a::ord list \<Rightarrow> int \<Rightarrow> int \<Rightarrow> 'a list result" where
  "buildHeap_loop vec i n =
     (if i \<ge> 0 then then_do (heapify vec i n) (\<lambda>vec'. buildHeap_loop vec' (i - 1) n)
      else Inr vec)"
  by pat_completeness auto
termination
  by (relation "measure (\<lambda>(vec, i, n). nat (i + 1))") auto

declare buildHeap_loop.simps [simp del]

definition buildHeap :: "'a::ord list \<Rightarrow> 'a list result" where
  "buildHeap vec = (let n = len vec in buildHeap_loop vec (n sdiv 2 - 1) n)"

function HeapSort_loop :: "'a::ord list \<Rightarrow> int \<Rightarrow> 'a list result" where
  "HeapSort_loop vec i =
     (if i \<ge> 0 then
        if \<not> inb vec 0 \<or> \<not> inb vec i then Inl IndexOutOfRange
        else then_do (heapify (swap vec 0 i) 0 i) (\<lambda>vec'. HeapSort_loop vec' (i - 1))
      else Inr vec)"
  by pat_completeness auto
termination
  by (relation "measure (\<lambda>(vec, i). nat (i + 1))") auto

declare HeapSort_loop.simps [simp del]

definition HeapSort :: "'a::ord list \<Rightarrow> 'a list result" where
  "HeapSort vec = (let n = len vec in then_do (buildHeap vec) (\<lambda>vec1. HeapSort_loop vec1 (n - 1)))"

section \<open>Linear-time integer sorts\<close>

text \<open>
  The integer sorts take \<^verbatim>\<open>[]uint\<close>. So that the same code can also be run on elements
  that carry more than their \<^verbatim>\<open>uint\<close> value (which is what stability is about), the
  functions suffixed \<open>_on\<close> take the projection \<open>val\<close> from an element to the
  \<^verbatim>\<open>uint\<close> the code reads, and the zero value \<open>z\<close> that \<^verbatim>\<open>make\<close> fills a new slice
  with. The functions of the source are the instances \<open>val = (\<lambda>v. v)\<close>, \<open>z = 0\<close>.

  A counter of a \<^verbatim>\<open>counts\<close> array never exceeds \<open>len(vec) < 2^63\<close>, so its increments
  do not wrap: counters are natural numbers, and \<^verbatim>\<open>counts[b]-1\<close> on a zero counter, which
  wraps to the largest \<^verbatim>\<open>uint\<close>, is written out as the out-of-range index it is.
\<close>

type_synonym uint = "64 word"

text \<open>\<^verbatim>\<open>slices.Max\<close> panics on an empty slice.\<close>

definition slices_Max :: "uint list \<Rightarrow> uint result" where
  "slices_Max xs = (case xs of [] \<Rightarrow> Inl MaxOfEmptySlice | x # rest \<Rightarrow> Inr (fold (\<lambda>v m. max m v) rest x))"

text \<open>
  \<^verbatim>\<open>make([]T, n)\<close> calls the run-time function \<^verbatim>\<open>makeslice\<close>, which panics with
  \<^verbatim>\<open>len out of range\<close> when the length is negative as an \<^verbatim>\<open>int\<close>, or when the size in
  bytes, length times element size, overflows or exceeds the run-time constant
  \<^verbatim>\<open>maxAlloc\<close>. \<^verbatim>\<open>maxAlloc\<close> is \<open>2^48\<close> on linux/amd64 (48 bits of heap address), the
  platform modelled here together with the 64-bit \<^verbatim>\<open>uint\<close> and \<^verbatim>\<open>int\<close>. A \<^verbatim>\<open>uint\<close> is
  8 bytes, so \<^verbatim>\<open>make([]uint, n)\<close> accepts the lengths up to \<open>2^45\<close>; a \<^verbatim>\<open>uint\<close> length of
  \<open>2^63\<close> or more is negative as an \<^verbatim>\<open>int\<close>. An accepted allocation that the machine
  cannot serve ends the program (out of memory); that is not modelled.
\<close>

definition maxAlloc :: nat where
  "maxAlloc = 2 ^ 48"

definition makeslice :: "uint \<Rightarrow> 'a \<Rightarrow> 'a list result" where
  "makeslice n z =
     (if unat n < 2 ^ 63 \<and> unat n * 8 \<le> maxAlloc then Inr (replicate (unat n) z)
      else Inl MakeLenOutOfRange)"

text \<open>
  The three loops of a counting pass. \<^verbatim>\<open>GeneralCountingSort\<close> (lines 232-243),
  \<^verbatim>\<open>radixIntCountSort\<close> (lines 289-302) and \<^verbatim>\<open>radixStringCountSort\<close> (lines 358-379)
  run the same three loops and differ in the bucket computed from an element, which is
  the parameter \<open>bucket\<close> (it can panic).
\<close>

function count_loop :: "('a \<Rightarrow> nat result) \<Rightarrow> 'a list \<Rightarrow> int \<Rightarrow> nat list \<Rightarrow> nat list result" where
  "count_loop bucket vec i counts =
     (if i < len vec then
        if \<not> inb vec i then Inl IndexOutOfRange
        else then_do (bucket (idx vec i)) (\<lambda>b.
          if \<not> b < length counts then Inl IndexOutOfRange
          else count_loop bucket vec (i + 1) (counts[b := counts ! b + 1]))
      else Inr counts)"
  by pat_completeness auto
termination
  by (relation "measure (\<lambda>(bucket, vec, i, counts). nat (len vec - i))") auto

declare count_loop.simps [simp del]

function prefix_loop :: "nat list \<Rightarrow> int \<Rightarrow> int \<Rightarrow> nat list result" where
  "prefix_loop counts i bound =
     (if i < bound then
        if \<not> inb counts i \<or> \<not> inb counts (i - 1) then Inl IndexOutOfRange
        else prefix_loop (upd counts i (idx counts i + idx counts (i - 1))) (i + 1) bound
      else Inr counts)"
  by pat_completeness auto
termination
  by (relation "measure (\<lambda>(counts, i, bound). nat (bound - i))") auto

declare prefix_loop.simps [simp del]

function place_loop :: "('a \<Rightarrow> nat result) \<Rightarrow> 'a list \<Rightarrow> int \<Rightarrow> nat list \<Rightarrow> 'a list \<Rightarrow> 'a list result" where
  "place_loop bucket vec i counts output =
     (if i \<ge> 0 then
        if \<not> inb vec i then Inl IndexOutOfRange
        else then_do (bucket (idx vec i)) (\<lambda>b.
          if \<not> b < length counts then Inl IndexOutOfRange
          else
            let c = counts ! b in
            if c = 0 \<or> \<not> c - 1 < length output then Inl IndexOutOfRange
            else place_loop bucket vec (i - 1) (counts[b := c - 1]) (output[c - 1 := idx vec i]))
      else Inr output)"
  by pat_completeness auto
termination
  by (relation "measure (\<lambda>(bucket, vec, i, counts, output). nat (i + 1))") auto

declare place_loop.simps [simp del]

text \<open>\<^verbatim>\<open>GeneralCountingSort\<close>, lines 222-246.\<close>

definition GeneralCountingSort_on :: "('a \<Rightarrow> uint) \<Rightarrow> 'a \<Rightarrow> 'a list \<Rightarrow> 'a list result" where
  "GeneralCountingSort_on val z vec =
     (if len vec \<le> 1 then Inr vec
      else
        then_do (slices_Max (map val vec)) (\<lambda>max.
        then_do (makeslice (max + 1) (0::nat)) (\<lambda>counts.
        let sorted = replicate (length vec) z in
        then_do (count_loop (\<lambda>x. Inr (unat (val x))) vec 0 counts) (\<lambda>counts1.
        then_do (prefix_loop counts1 1 (len counts1)) (\<lambda>counts2.
        then_do (place_loop (\<lambda>x. Inr (unat (val x))) vec (len vec - 1) counts2 sorted) (\<lambda>sorted'.
        Inr (copy vec sorted')))))))"

definition GeneralCountingSort :: "uint list \<Rightarrow> uint list result" where
  "GeneralCountingSort vec = GeneralCountingSort_on (\<lambda>v. v) 0 vec"

text \<open>\<^verbatim>\<open>IntegerCountingSort\<close>, lines 248-269. The loop variable \<open>i\<close> is a \<^verbatim>\<open>uint\<close>.\<close>

function IntegerCountingSort_fill ::
    "uint list \<Rightarrow> nat list \<Rightarrow> int \<Rightarrow> uint \<Rightarrow> (uint list \<times> nat list \<times> int) result" where
  "IntegerCountingSort_fill vec counts index i =
     (if \<not> unat i < length counts then Inl IndexOutOfRange
      else if counts ! unat i > 0 then
        if \<not> inb vec index then Inl IndexOutOfRange
        else IntegerCountingSort_fill (upd vec index i) (counts[unat i := counts ! unat i - 1]) (index + 1) i
      else Inr (vec, counts, index))"
  by pat_completeness auto
termination
  by (relation "measure (\<lambda>(vec, counts, index, i). counts ! unat i)") auto

declare IntegerCountingSort_fill.simps [simp del]

lemma IntegerCountingSort_fill_length:
  "IntegerCountingSort_fill vec counts index i = Inr (vec', counts', index') \<Longrightarrow>
     length counts' = length counts \<and> length vec' = length vec"
  by (induction vec counts index i rule: IntegerCountingSort_fill.induct)
     (subst (asm) (2) IntegerCountingSort_fill.simps, auto split: if_splits)

lemma uint_less_Suc: "(i::uint) < w \<Longrightarrow> unat (i + 1) = Suc (unat i)"
proof -
  assume "i < w"
  then have "unat i < unat w" by (simp add: word_less_nat_alt)
  moreover have "unat w < 2 ^ 64" using unsigned_less [of w] by simp
  ultimately show ?thesis by (simp add: unat_word_ariths)
qed

function IntegerCountingSort_loop :: "uint list \<Rightarrow> nat list \<Rightarrow> int \<Rightarrow> uint \<Rightarrow> uint list result" where
  "IntegerCountingSort_loop vec counts index i =
     (if i < of_nat (length counts) then
        then_do (IntegerCountingSort_fill vec counts index i) (\<lambda>(vec', counts', index').
          IntegerCountingSort_loop vec' counts' index' (i + 1))
      else Inr vec)"
  by pat_completeness auto
termination
proof (relation "measure (\<lambda>(vec, counts, index, i). 2 ^ 64 - unat i)", goal_cases)
  case 1
  then show ?case by simp
next
  case (2 vec counts index i x xa y xb ya)
  have "unat i < 2 ^ 64" using unsigned_less [of i] by simp
  with 2 show ?case by (simp add: uint_less_Suc)
qed

declare IntegerCountingSort_loop.simps [simp del]

definition IntegerCountingSort :: "uint list \<Rightarrow> uint list result" where
  "IntegerCountingSort vec =
     (if len vec \<le> 1 then Inr vec
      else
        then_do (slices_Max vec) (\<lambda>max.
        then_do (makeslice (max + 1) (0::nat)) (\<lambda>counts.
        then_do (count_loop (\<lambda>x. Inr (unat x)) vec 0 counts) (\<lambda>counts1.
        IntegerCountingSort_loop vec counts1 0 0))))"

text \<open>\<^verbatim>\<open>radixIntCountSort\<close>, lines 285-305, with \<^verbatim>\<open>NumDigits = 10\<close>. The division by
  \<^verbatim>\<open>exp\<close> panics when \<^verbatim>\<open>exp\<close> is zero.\<close>

definition NumDigits :: uint where
  "NumDigits = 10"

definition digit_bucket :: "uint \<Rightarrow> uint \<Rightarrow> nat result" where
  "digit_bucket exp v = (if exp = 0 then Inl DivideByZero else Inr (unat ((v div exp) mod NumDigits)))"

definition radixIntCountSort_on :: "('a \<Rightarrow> uint) \<Rightarrow> 'a \<Rightarrow> 'a list \<Rightarrow> uint \<Rightarrow> 'a list result" where
  "radixIntCountSort_on val z vec exp =
     (let output = replicate (length vec) z;
          counts = replicate (unat NumDigits) (0::nat)
      in
      then_do (count_loop (\<lambda>x. digit_bucket exp (val x)) vec 0 counts) (\<lambda>counts1.
      then_do (prefix_loop counts1 1 (int (unat NumDigits))) (\<lambda>counts2.
      then_do (place_loop (\<lambda>x. digit_bucket exp (val x)) vec (len vec - 1) counts2 output) (\<lambda>output'.
      Inr (copy vec output')))))"

text \<open>\<^verbatim>\<open>IntRadixSort\<close>, lines 271-283. \<^verbatim>\<open>exp *= 10\<close> wraps modulo \<open>2^64\<close>; after 64
  multiplications by 10 every \<^verbatim>\<open>uint\<close> is zero, which is why the loop is total.\<close>

lemma uint_times_10_pow_64: "(e::uint) * 10 ^ 64 = 0"
proof -
  have "(10::uint) ^ 64 = 2 ^ 64 * 5 ^ 64"
    by (simp flip: power_mult_distrib)
  also have "\<dots> = 0" by simp
  finally have "(10::uint) ^ 64 = 0" .
  then show ?thesis by (simp only: mult_zero_right)
qed

definition wrap_steps :: "uint \<Rightarrow> nat" where
  "wrap_steps e = (LEAST k. e * 10 ^ k = 0)"

lemma wrap_steps_decreases: "e \<noteq> 0 \<Longrightarrow> wrap_steps (e * 10) < wrap_steps e"
proof -
  assume e: "e \<noteq> 0"
  have z: "e * 10 ^ wrap_steps e = 0"
    unfolding wrap_steps_def by (rule LeastI [of _ 64]) (rule uint_times_10_pow_64)
  with e obtain m where m: "wrap_steps e = Suc m"
    by (cases "wrap_steps e") auto
  with z have "(e * 10) * 10 ^ m = 0" by (simp add: mult.assoc)
  then have "wrap_steps (e * 10) \<le> m"
    unfolding wrap_steps_def by (rule Least_le)
  with m show ?thesis by simp
qed

function IntRadixSort_loop :: "('a \<Rightarrow> uint) \<Rightarrow> 'a \<Rightarrow> 'a list \<Rightarrow> uint \<Rightarrow> uint \<Rightarrow> 'a list result" where
  "IntRadixSort_loop val z vec mx exp =
     (if exp = 0 then Inl DivideByZero
      else if mx div exp > 0 then
        then_do (radixIntCountSort_on val z vec exp) (\<lambda>vec'.
          IntRadixSort_loop val z vec' mx (exp * 10))
      else Inr vec)"
  by pat_completeness auto
termination
  by (relation "measure (\<lambda>(val, z, vec, mx, exp). wrap_steps exp)")
     (auto simp: wrap_steps_decreases)

declare IntRadixSort_loop.simps [simp del]

definition IntRadixSort_on :: "('a \<Rightarrow> uint) \<Rightarrow> 'a \<Rightarrow> 'a list \<Rightarrow> 'a list result" where
  "IntRadixSort_on val z vec =
     (if len vec \<le> 1 then Inr vec
      else then_do (slices_Max (map val vec)) (\<lambda>max. IntRadixSort_loop val z vec max 1))"

definition IntRadixSort :: "uint list \<Rightarrow> uint list result" where
  "IntRadixSort vec = IntRadixSort_on (\<lambda>v. v) 0 vec"

definition radixIntCountSort :: "uint list \<Rightarrow> uint \<Rightarrow> uint list result" where
  "radixIntCountSort vec exp = radixIntCountSort_on (\<lambda>v. v) 0 vec exp"

text \<open>\<^verbatim>\<open>LessEfficientRadixSort\<close>, lines 307-333: one pass scatters the elements into
  \<^verbatim>\<open>radixArray\<close> (lines 317-320) and writes the ten buckets back in order (lines 322-329;
  the two \<^verbatim>\<open>range\<close> loops walk the buckets and their elements).\<close>

function LessEfficientRadixSort_scatter ::
    "uint list \<Rightarrow> uint \<Rightarrow> int \<Rightarrow> uint list list \<Rightarrow> uint list list result" where
  "LessEfficientRadixSort_scatter vec divisor i radixArray =
     (if i < len vec then
        if \<not> inb vec i then Inl IndexOutOfRange
        else then_do (digit_bucket divisor (idx vec i)) (\<lambda>radixIndex.
          if \<not> radixIndex < length radixArray then Inl IndexOutOfRange
          else LessEfficientRadixSort_scatter vec divisor (i + 1)
                 (radixArray[radixIndex := radixArray ! radixIndex @ [idx vec i]]))
      else Inr radixArray)"
  by pat_completeness auto
termination
  by (relation "measure (\<lambda>(vec, divisor, i, radixArray). nat (len vec - i))") auto

declare LessEfficientRadixSort_scatter.simps [simp del]

fun write_all :: "'a list \<Rightarrow> int \<Rightarrow> 'a list \<Rightarrow> ('a list \<times> int) result" where
  "write_all vec k [] = Inr (vec, k)"
| "write_all vec k (x # xs) =
     (if \<not> inb vec k then Inl IndexOutOfRange else write_all (upd vec k x) (k + 1) xs)"

fun LessEfficientRadixSort_gather :: "uint list \<Rightarrow> int \<Rightarrow> uint list list \<Rightarrow> uint list result" where
  "LessEfficientRadixSort_gather vec k [] = Inr vec"
| "LessEfficientRadixSort_gather vec k (b # bs) =
     then_do (write_all vec k b) (\<lambda>(vec', k'). LessEfficientRadixSort_gather vec' k' bs)"

definition LessEfficientRadixSort_pass :: "uint list \<Rightarrow> uint \<Rightarrow> uint list result" where
  "LessEfficientRadixSort_pass vec divisor =
     (let radixArray = replicate (unat NumDigits) [] in
      then_do (LessEfficientRadixSort_scatter vec divisor 0 radixArray) (\<lambda>radixArray'.
      LessEfficientRadixSort_gather vec 0 radixArray'))"

function LessEfficientRadixSort_loop :: "uint list \<Rightarrow> uint \<Rightarrow> uint \<Rightarrow> uint list result" where
  "LessEfficientRadixSort_loop vec mx divisor =
     (if divisor = 0 then Inl DivideByZero
      else if mx div divisor > 0 then
        then_do (LessEfficientRadixSort_pass vec divisor) (\<lambda>vec'.
          LessEfficientRadixSort_loop vec' mx (divisor * 10))
      else Inr vec)"
  by pat_completeness auto
termination
  by (relation "measure (\<lambda>(vec, mx, divisor). wrap_steps divisor)")
     (auto simp: wrap_steps_decreases)

declare LessEfficientRadixSort_loop.simps [simp del]

definition LessEfficientRadixSort :: "uint list \<Rightarrow> uint list result" where
  "LessEfficientRadixSort vec =
     (if len vec \<le> 1 then Inr vec
      else then_do (slices_Max vec) (\<lambda>max. LessEfficientRadixSort_loop vec max 1))"

section \<open>String radix sort\<close>

text \<open>
  A Go string is a sequence of bytes: a \<open>string\<close>, whose characters are bytes, compared
  byte-lexicographically. As for the integer sorts, \<open>val\<close> projects an element to the
  string the code reads and \<open>z\<close> is the zero value; the source is the instance
  \<open>val = (\<lambda>s. s)\<close>, \<open>z = []\<close>.

  The bucket of \<^verbatim>\<open>radixStringCountSort\<close> (lines 359-363 and 372-376) is a \<^verbatim>\<open>uint8\<close>:
  \<^verbatim>\<open>uint8(vec[i][curIdx]) + 1\<close> wraps modulo 256.
\<close>

definition string_bucket :: "int \<Rightarrow> string \<Rightarrow> nat result" where
  "string_bucket curIdx s =
     (if curIdx < len s then
        if \<not> inb s curIdx then Inl IndexOutOfRange
        else Inr (unat ((of_char (idx s curIdx) :: 8 word) + 1))
      else Inr 0)"

definition radixStringCountSort_on :: "('a \<Rightarrow> string) \<Rightarrow> 'a \<Rightarrow> 'a list \<Rightarrow> int \<Rightarrow> 'a list result" where
  "radixStringCountSort_on val z vec curIdx =
     (let output = replicate (length vec) z;
          counts = replicate 129 (0::nat)
      in
      then_do (count_loop (\<lambda>x. string_bucket curIdx (val x)) vec 0 counts) (\<lambda>counts1.
      then_do (prefix_loop counts1 1 (len counts1)) (\<lambda>counts2.
      then_do (place_loop (\<lambda>x. string_bucket curIdx (val x)) vec (len vec - 1) counts2 output) (\<lambda>output'.
      Inr (copy vec output')))))"

definition radixStringCountSort :: "string list \<Rightarrow> int \<Rightarrow> string list result" where
  "radixStringCountSort vec curIdx = radixStringCountSort_on (\<lambda>s. s) [] vec curIdx"

text \<open>\<^verbatim>\<open>StringRadixSort\<close>, lines 336-351.\<close>

function StringRadixSort_maxLen :: "('a \<Rightarrow> string) \<Rightarrow> 'a list \<Rightarrow> int \<Rightarrow> int \<Rightarrow> int result" where
  "StringRadixSort_maxLen val vec i maxLen =
     (if i < len vec then
        if \<not> inb vec i then Inl IndexOutOfRange
        else StringRadixSort_maxLen val vec (i + 1)
               (if len (val (idx vec i)) > maxLen then len (val (idx vec i)) else maxLen)
      else Inr maxLen)"
  by pat_completeness auto
termination
  by (relation "measure (\<lambda>(val, vec, i, m). nat (len vec - i))") auto

declare StringRadixSort_maxLen.simps [simp del]

lemma radixStringCountSort_on_length:
  "radixStringCountSort_on val z vec i = Inr vec' \<Longrightarrow> length vec' = length vec"
  by (auto simp: radixStringCountSort_on_def Let_def then_do_eq_Inr copy_def)

function StringRadixSort_loop :: "('a \<Rightarrow> string) \<Rightarrow> 'a \<Rightarrow> 'a list \<Rightarrow> int \<Rightarrow> 'a list result" where
  "StringRadixSort_loop val z vec i =
     (if i \<ge> 0 then
        then_do (radixStringCountSort_on val z vec i) (\<lambda>vec'. StringRadixSort_loop val z vec' (i - 1))
      else Inr vec)"
  by pat_completeness auto
termination
  by (relation "measure (\<lambda>(val, z, vec, i). nat (i + 1))") auto

declare StringRadixSort_loop.simps [simp del]

definition StringRadixSort_on :: "('a \<Rightarrow> string) \<Rightarrow> 'a \<Rightarrow> 'a list \<Rightarrow> 'a list result" where
  "StringRadixSort_on val z vec =
     (if len vec \<le> 1 then Inr vec
      else if \<not> inb vec 0 then Inl IndexOutOfRange
      else
        then_do (StringRadixSort_maxLen val vec 1 (len (val (idx vec 0)))) (\<lambda>maxLen.
        StringRadixSort_loop val z vec (maxLen - 1)))"

definition StringRadixSort :: "string list \<Rightarrow> string list result" where
  "StringRadixSort vec = StringRadixSort_on (\<lambda>s. s) [] vec"

section \<open>Bucket sort\<close>

text \<open>
  \<^verbatim>\<open>BucketSort\<close>, lines 384-430, sorts \<^verbatim>\<open>float64\<close> values. The function is modelled
  over any element type \<open>'f\<close> with \<open><\<close> and \<open>\<le>\<close>; the other operations on \<^verbatim>\<open>float64\<close> that it
  uses are the fields of a record it takes (\<^verbatim>\<open>int(x)\<close> gives a 64-bit integer, read as
  signed). The record of the IEEE 754 binary64 operations, \<open>float64_ops\<close>, is defined
  below.
\<close>

record 'f float_ops =
  f_eq :: "'f \<Rightarrow> 'f \<Rightarrow> bool"
  f_sub :: "'f \<Rightarrow> 'f \<Rightarrow> 'f"
  f_div :: "'f \<Rightarrow> 'f \<Rightarrow> 'f"
  f_mul :: "'f \<Rightarrow> 'f \<Rightarrow> 'f"
  f_sqrt :: "'f \<Rightarrow> 'f"
  f_of_int :: "int \<Rightarrow> 'f"
  f_to_int :: "'f \<Rightarrow> 64 word"
  f_inf :: "'f"
  f_neg_inf :: "'f"
  f_zero :: "'f"

fun BucketSort_minmax :: "'f::ord list \<Rightarrow> 'f \<times> 'f \<Rightarrow> 'f \<times> 'f" where
  "BucketSort_minmax [] (mn, mx) = (mn, mx)"
| "BucketSort_minmax (val # rest) (mn, mx) =
     BucketSort_minmax rest (if val < mn then val else mn, if val > mx then val else mx)"

text \<open>Line 411, \<^verbatim>\<open>int((max-min)/math.Sqrt(float64(len(vec)))) + 1\<close>, and line 415,
  \<^verbatim>\<open>int((val - min) / (max - min) * float64(numBuckets-1))\<close>.\<close>

definition BucketSort_numBuckets :: "'f float_ops \<Rightarrow> 'f \<Rightarrow> 'f \<Rightarrow> int \<Rightarrow> int" where
  "BucketSort_numBuckets F mn mx n =
     sint (f_to_int F (f_div F (f_sub F mx mn) (f_sqrt F (f_of_int F n))) + 1)"

definition BucketSort_index :: "'f float_ops \<Rightarrow> 'f \<Rightarrow> 'f \<Rightarrow> int \<Rightarrow> 'f \<Rightarrow> int" where
  "BucketSort_index F mn mx numBuckets val =
     sint (f_to_int F (f_mul F (f_div F (f_sub F val mn) (f_sub F mx mn)) (f_of_int F (numBuckets - 1))))"

fun BucketSort_scatter ::
    "'f float_ops \<Rightarrow> 'f \<Rightarrow> 'f \<Rightarrow> int \<Rightarrow> 'f list \<Rightarrow> 'f list list \<Rightarrow> 'f list list result" where
  "BucketSort_scatter F mn mx numBuckets [] buckets = Inr buckets"
| "BucketSort_scatter F mn mx numBuckets (val # rest) buckets =
     (let index = BucketSort_index F mn mx numBuckets val in
      if \<not> inb buckets index then Inl IndexOutOfRange
      else BucketSort_scatter F mn mx numBuckets rest
             (upd buckets index (idx buckets index @ [val])))"

fun BucketSort_gather :: "'f::ord list list \<Rightarrow> 'f list \<Rightarrow> int \<Rightarrow> 'f list result" where
  "BucketSort_gather [] output k = Inr output"
| "BucketSort_gather (b # bs) output k =
     then_do (QuickSort b) (\<lambda>b'.
     then_do (write_all output k b') (\<lambda>(output', k').
     BucketSort_gather bs output' k'))"

text \<open>\<^verbatim>\<open>make([][]float64, numBuckets)\<close>: an element is a slice header of 24 bytes, and
  the run time refuses a negative length and a size above \<^verbatim>\<open>maxAlloc\<close>.\<close>

definition BucketSort :: "'f::ord float_ops \<Rightarrow> 'f list \<Rightarrow> 'f list result" where
  "BucketSort F vec =
     (if len vec \<le> 1 then Inr vec
      else
        let (mn, mx) = BucketSort_minmax vec (f_inf F, f_neg_inf F) in
        if f_eq F mx mn then QuickSort vec
        else
          let numBuckets = BucketSort_numBuckets F mn mx (len vec) in
          if numBuckets < 0 \<or> numBuckets * 24 > int maxAlloc then Inl MakeLenOutOfRange
          else
            let buckets = replicate (nat numBuckets) [] in
            then_do (BucketSort_scatter F mn mx numBuckets vec buckets) (\<lambda>buckets'.
            let output = replicate (length vec) (f_zero F) in
            then_do (BucketSort_gather buckets' output 0) (\<lambda>output'.
            Inr (copy vec output'))))"

section \<open>Elements that carry a tag\<close>

text \<open>
  Stability is about elements that compare equal and still differ. \<open>'a tagged\<close> is a
  key with a tag (the position in the input, say) and is compared by its key alone, so
  it is an element type the generic sorts accept.
\<close>

datatype 'a tagged = Tagged (key: 'a) (tag: nat)

instantiation tagged :: (ord) ord
begin

definition less_eq_tagged :: "'a tagged \<Rightarrow> 'a tagged \<Rightarrow> bool" where
  "less_eq_tagged x y \<longleftrightarrow> key x \<le> key y"

definition less_tagged :: "'a tagged \<Rightarrow> 'a tagged \<Rightarrow> bool" where
  "less_tagged x y \<longleftrightarrow> key x < key y"

instance ..

end

section \<open>Median of three\<close>

lemma medianOfThree_index:
  "inb vec i \<Longrightarrow> inb vec j \<Longrightarrow> inb vec k \<Longrightarrow> \<exists>m \<in> {i, j, k}. medianOfThree vec i j k = Inr m"
  by (simp add: medianOfThree_def)

text \<open>
  Claim C8: for indices \<open>start \<le> mid \<le> end\<close> in bounds, \<^verbatim>\<open>medianOfThree\<close> returns an
  index whose value is a median of the three values (neither strictly less than both
  others nor strictly greater than both), and \<^verbatim>\<open>partition\<close> moves it to \<open>end\<close>.
  On the slice \<open>[1, 1, 2]\<close> with \<open>start = 0\<close>, \<open>mid = 1\<close>, \<open>end = 2\<close> this fails: no
  comparison of lines 173 and 175 tells \<open>vec[0]\<close> from \<open>vec[1]\<close>, both tests come out
  equal, and the function returns \<open>end\<close>, whose value 2 is strictly greater than both
  others; \<^verbatim>\<open>partition\<close> then keeps this maximum as the pivot.
\<close>

theorem medianOfThree_tie_returns_max:
  "medianOfThree [1, 1, 2 :: int] 0 1 2 = Inr 2
   \<and> idx [1, 1, 2 :: int] 0 < idx [1, 1, 2] 2
   \<and> idx [1, 1, 2 :: int] 1 < idx [1, 1, 2] 2
   \<and> partition [1, 1, 2 :: int] 0 2 = Inr ([1, 1, 2], 2)"
  by (simp add: medianOfThree_def partition_def inb_def idx_def upd_def swap_def Let_def
      partition_loop.simps signed_divide_int_def)

theorem medianOfThree_tie_returns_max_witness:
  "medianOfThree [1, 1, 2 :: int] 0 1 2 = Inr 2"
  using medianOfThree_tie_returns_max by simp

section \<open>Inputs of length 0 and 1\<close>

lemma SimpleSort_short: "length vec \<le> 1 \<Longrightarrow> SimpleSort vec = Inr vec"
  by (simp add: SimpleSort_def SimpleSort_outer.simps)

lemma SelectionSort_short: "length vec \<le> 1 \<Longrightarrow> SelectionSort vec = Inr vec"
  by (simp add: SelectionSort_def SelectionSort_outer.simps)

lemma BubbleSort_short: "length vec \<le> 1 \<Longrightarrow> BubbleSort vec = Inr vec"
  by (simp add: BubbleSort_def BubbleSort_outer.simps)

lemma InsertionSort_short: "length vec \<le> 1 \<Longrightarrow> InsertionSort vec = Inr vec"
  by (simp add: InsertionSort_def InsertionSort_outer.simps)

lemma HeapSort_short:
  assumes "length vec \<le> 1"
  shows "HeapSort vec = Inr vec"
proof (cases vec)
  case Nil
  then show ?thesis
    by (simp add: HeapSort_def buildHeap_def buildHeap_loop.simps HeapSort_loop.simps
        signed_divide_int_def)
next
  case (Cons x xs)
  with assms have "vec = [x]" by simp
  then show ?thesis
    by (simp add: HeapSort_def buildHeap_def buildHeap_loop.simps HeapSort_loop.simps
        heapify.simps Let_def inb_def swap_def upd_def idx_def signed_divide_int_def)
qed

text \<open>
  Claim C10: each of the thirteen exported sorts returns an input slice of length 0 or 1
  unchanged. \<^verbatim>\<open>HeapSort\<close> has no length guard: on a singleton it swaps the root with
  itself and \<^verbatim>\<open>heapify\<close> finds no child.
\<close>

theorem short_input_unchanged:
  fixes vec :: "'a::ord list" and nums :: "uint list" and strs :: "string list" and fs :: "'f::ord list"
  assumes "length vec \<le> 1" and "length nums \<le> 1" and "length strs \<le> 1" and "length fs \<le> 1"
  shows "SimpleSort vec = Inr vec \<and> SelectionSort vec = Inr vec \<and> BubbleSort vec = Inr vec
       \<and> InsertionSort vec = Inr vec \<and> MergeSort z vec = Inr vec \<and> QuickSort vec = Inr vec
       \<and> HeapSort vec = Inr vec
       \<and> GeneralCountingSort nums = Inr nums \<and> IntegerCountingSort nums = Inr nums
       \<and> IntRadixSort nums = Inr nums \<and> LessEfficientRadixSort nums = Inr nums
       \<and> StringRadixSort strs = Inr strs
       \<and> BucketSort F fs = Inr fs"
  using assms
  by (simp add: SimpleSort_short SelectionSort_short BubbleSort_short InsertionSort_short
      HeapSort_short MergeSort_def QuickSort_def GeneralCountingSort_def GeneralCountingSort_on_def
      IntegerCountingSort_def IntRadixSort_def IntRadixSort_on_def LessEfficientRadixSort_def
      StringRadixSort_def StringRadixSort_on_def BucketSort_def)

theorem short_input_unchanged_witness:
  "SimpleSort [7::int] = Inr [7] \<and> SelectionSort [7::int] = Inr [7] \<and> BubbleSort [7::int] = Inr [7]
       \<and> InsertionSort [7::int] = Inr [7] \<and> MergeSort 0 [7::int] = Inr [7] \<and> QuickSort [7::int] = Inr [7]
       \<and> HeapSort [7::int] = Inr [7]
       \<and> GeneralCountingSort [] = Inr [] \<and> IntegerCountingSort [] = Inr []
       \<and> IntRadixSort [] = Inr [] \<and> LessEfficientRadixSort [] = Inr []
       \<and> StringRadixSort [''a''] = Inr [''a'']
       \<and> (\<forall>F. BucketSort F [3::int] = Inr [3])"
  using short_input_unchanged [of "[7::int]" "[]" "[''a'']" "[3::int]" 0] by simp

section \<open>Counting passes\<close>

definition cnt :: "('a \<Rightarrow> nat) \<Rightarrow> 'a list \<Rightarrow> nat \<Rightarrow> nat" where
  "cnt kf xs d = length (filter (\<lambda>x. kf x = d) xs)"

definition lt_cnt :: "('a \<Rightarrow> nat) \<Rightarrow> 'a list \<Rightarrow> nat \<Rightarrow> nat" where
  "lt_cnt kf xs d = length (filter (\<lambda>x. kf x < d) xs)"

definition bconcat :: "('a \<Rightarrow> nat) \<Rightarrow> nat \<Rightarrow> 'a list \<Rightarrow> 'a list" where
  "bconcat kf nb xs = concat (map (\<lambda>d. filter (\<lambda>x. kf x = d) xs) [0..<nb])"

lemma cnt_Nil [simp]: "cnt kf [] d = 0"
  by (simp add: cnt_def)

lemma cnt_Cons: "cnt kf (x # xs) d = (if kf x = d then Suc (cnt kf xs d) else cnt kf xs d)"
  by (simp add: cnt_def)

lemma cnt_append [simp]: "cnt kf (xs @ ys) d = cnt kf xs d + cnt kf ys d"
  by (simp add: cnt_def)

lemma lt_cnt_0 [simp]: "lt_cnt kf xs 0 = 0"
  by (simp add: lt_cnt_def)

lemma lt_cnt_Suc: "lt_cnt kf xs (Suc d) = lt_cnt kf xs d + cnt kf xs d"
  by (induction xs) (auto simp: lt_cnt_def cnt_def)

lemma lt_cnt_all: "\<forall>x\<in>set xs. kf x < nb \<Longrightarrow> lt_cnt kf xs nb = length xs"
  by (simp add: lt_cnt_def)

lemma lt_cnt_mono: "d \<le> e \<Longrightarrow> lt_cnt kf xs d \<le> lt_cnt kf xs e"
  by (induction xs) (auto simp: lt_cnt_def)

lemma bconcat_Suc: "bconcat kf (Suc nb) xs = bconcat kf nb xs @ filter (\<lambda>x. kf x = nb) xs"
  by (simp add: bconcat_def)

lemma length_bconcat: "length (bconcat kf nb xs) = lt_cnt kf xs nb"
  by (induction nb) (simp_all add: bconcat_Suc lt_cnt_Suc cnt_def, simp add: bconcat_def)

lemma bconcat_nth_bucket:
  "d < nb \<Longrightarrow> j < cnt kf xs d \<Longrightarrow> bconcat kf nb xs ! (lt_cnt kf xs d + j) = filter (\<lambda>x. kf x = d) xs ! j"
proof (induction nb)
  case 0
  then show ?case by simp
next
  case (Suc nb)
  show ?case
  proof (cases "d = nb")
    case True
    with Suc.prems show ?thesis
      by (simp add: bconcat_Suc nth_append length_bconcat)
  next
    case False
    with Suc.prems have d: "d < nb" by simp
    have "lt_cnt kf xs d + j < lt_cnt kf xs (Suc d)"
      using Suc.prems by (simp add: lt_cnt_Suc)
    also have "\<dots> \<le> lt_cnt kf xs nb"
      using d by (intro lt_cnt_mono) simp
    finally show ?thesis
      using Suc.IH [OF d Suc.prems(2)] by (simp add: bconcat_Suc nth_append length_bconcat)
  qed
qed

lemma filter_nth_at:
  "m < length xs \<Longrightarrow> P (xs ! m) \<Longrightarrow> filter P xs ! length (filter P (take m xs)) = xs ! m"
proof -
  assume m: "m < length xs" and P: "P (xs ! m)"
  have "xs = take m xs @ xs ! m # drop (Suc m) xs"
    using m by (simp add: id_take_nth_drop)
  then have "filter P xs = filter P (take m xs) @ xs ! m # filter P (drop (Suc m) xs)"
    using P by (metis filter.simps(2) filter_append)
  then show ?thesis by (simp add: nth_append)
qed

lemma cnt_take_less:
  "m < length xs \<Longrightarrow> cnt kf (take m xs) (kf (xs ! m)) < cnt kf xs (kf (xs ! m))"
proof -
  assume m: "m < length xs"
  have "xs = take m xs @ xs ! m # drop (Suc m) xs"
    using m by (simp add: id_take_nth_drop)
  then have "cnt kf xs (kf (xs ! m)) = cnt kf (take m xs @ xs ! m # drop (Suc m) xs) (kf (xs ! m))"
    by simp
  then show ?thesis by (simp add: cnt_Cons)
qed

lemma bconcat_position:
  assumes "m < length xs" and "kf (xs ! m) < nb"
  shows "bconcat kf nb xs ! (lt_cnt kf xs (kf (xs ! m)) + cnt kf (take m xs) (kf (xs ! m))) = xs ! m"
proof -
  have "cnt kf (take m xs) (kf (xs ! m)) < cnt kf xs (kf (xs ! m))"
    using assms(1) by (rule cnt_take_less)
  from bconcat_nth_bucket [OF assms(2) this]
  show ?thesis
    using filter_nth_at [OF assms(1), of "\<lambda>x. kf x = kf (xs ! m)"]
    by (simp add: cnt_def)
qed

lemma count_loop_counts:
  assumes "\<forall>x\<in>set vec. bucket x = Inr (kf x) \<and> kf x < length counts" and "0 \<le> i"
  shows "count_loop bucket vec i counts =
         Inr (map (\<lambda>d. counts ! d + cnt kf (drop (nat i) vec) d) [0..<length counts])"
  using assms
proof (induction bucket vec i counts rule: count_loop.induct)
  case (1 bucket vec i counts)
  show ?case
  proof (cases "i < len vec")
    case False
    then show ?thesis
      by (subst count_loop.simps) (simp add: map_nth)
  next
    case True
    let ?x = "vec ! nat i"
    from True "1.prems"(2) have inb: "inb vec i" and n: "nat i < length vec"
      by (auto simp: inb_def)
    then have "?x \<in> set vec" by simp
    with "1.prems"(1) have b: "bucket ?x = Inr (kf ?x)" and k: "kf ?x < length counts"
      by auto
    have d: "drop (nat i) vec = ?x # drop (nat (i + 1)) vec"
      using n "1.prems"(2) by (simp add: Cons_nth_drop_Suc nat_add_distrib)
    let ?counts = "counts[kf ?x := counts ! kf ?x + 1]"
    have IH: "count_loop bucket vec (i + 1) ?counts =
              Inr (map (\<lambda>d. ?counts ! d + cnt kf (drop (nat (i + 1)) vec) d) [0..<length ?counts])"
      using "1.IH" [OF True _ _ _ _ ] inb b k "1.prems" by (simp add: idx_def)
    have "count_loop bucket vec i counts = count_loop bucket vec (i + 1) ?counts"
      using True inb b k by (subst count_loop.simps) (simp add: idx_def)
    also note IH
    also have "map (\<lambda>d. ?counts ! d + cnt kf (drop (nat (i + 1)) vec) d) [0..<length ?counts]
             = map (\<lambda>d. counts ! d + cnt kf (drop (nat i) vec) d) [0..<length counts]"
      using k by (auto simp: d cnt_Cons nth_list_update)
    finally show ?thesis .
  qed
qed

lemma count_loop_panics:
  assumes "\<forall>x\<in>set vec. bucket x = Inr (kf x)" and "0 \<le> i"
    and "\<exists>x\<in>set (drop (nat i) vec). \<not> kf x < length counts"
  shows "count_loop bucket vec i counts = Inl IndexOutOfRange"
  using assms
proof (induction bucket vec i counts rule: count_loop.induct)
  case (1 bucket vec i counts)
  from "1.prems"(3) have n: "nat i < length vec"
    by (cases "nat i < length vec") auto
  with "1.prems"(2) have True: "i < len vec" and inb: "inb vec i"
    by (auto simp: inb_def)
  let ?x = "vec ! nat i"
  have "?x \<in> set vec" using n by simp
  with "1.prems"(1) have b: "bucket ?x = Inr (kf ?x)" by auto
  have d: "drop (nat i) vec = ?x # drop (nat (i + 1)) vec"
    using n "1.prems"(2) by (simp add: Cons_nth_drop_Suc nat_add_distrib)
  show ?case
  proof (cases "kf ?x < length counts")
    case False
    then show ?thesis
      using True inb b by (subst count_loop.simps) (simp add: idx_def)
  next
    case k: True
    let ?counts = "counts[kf ?x := counts ! kf ?x + 1]"
    from "1.prems"(3) k have "\<exists>x\<in>set (drop (nat (i + 1)) vec). \<not> kf x < length ?counts"
      by (auto simp: d)
    then have "count_loop bucket vec (i + 1) ?counts = Inl IndexOutOfRange"
      using "1.IH" [OF True _ _ _ "1.prems"(1)] inb b k "1.prems"(2) by (simp add: idx_def)
    then show ?thesis
      using True inb b k by (subst count_loop.simps) (simp add: idx_def)
  qed
qed

fun psum :: "nat \<Rightarrow> nat list \<Rightarrow> nat list" where
  "psum acc [] = []"
| "psum acc (c # cs) = (acc + c) # psum (acc + c) cs"

lemma length_psum [simp]: "length (psum acc cs) = length cs"
  by (induction cs arbitrary: acc) auto

lemma psum_nth: "d < length cs \<Longrightarrow> psum acc cs ! d = acc + sum_list (take (Suc d) cs)"
proof (induction cs arbitrary: acc d)
  case Nil
  then show ?case by simp
next
  case (Cons c cs)
  then show ?case by (cases d) auto
qed

lemma prefix_loop_psum:
  assumes "1 \<le> i" and "i \<le> len cs"
  shows "prefix_loop cs i (len cs) = Inr (take (nat i) cs @ psum (cs ! (nat i - 1)) (drop (nat i) cs))"
  using assms
proof (induction cs i "len cs" rule: prefix_loop.induct)
  case (1 counts i)
  show ?case
  proof (cases "i < len counts")
    case False
    with "1.prems" have "nat i = length counts" by simp
    then show ?thesis using False
      by (subst prefix_loop.simps) simp
  next
    case True
    let ?c = "upd counts i (idx counts i + idx counts (i - 1))"
    from True "1.prems" have inb: "inb counts i" "inb counts (i - 1)"
      by (auto simp: inb_def)
    have n: "nat i < length counts" "nat (i + 1) = Suc (nat i)" "nat (i - 1) = nat i - 1"
      using True "1.prems" by auto
    have "prefix_loop counts i (len counts) = prefix_loop ?c (i + 1) (len ?c)"
      using True inb by (subst prefix_loop.simps) simp
    also have "\<dots> = Inr (take (nat (i + 1)) ?c @ psum (?c ! (nat (i + 1) - 1)) (drop (nat (i + 1)) ?c))"
      using "1.hyps" [OF True] inb True "1.prems" by simp
    also have "take (nat (i + 1)) ?c @ psum (?c ! (nat (i + 1) - 1)) (drop (nat (i + 1)) ?c)
             = take (nat i) counts @ psum (counts ! (nat i - 1)) (drop (nat i) counts)"
      using n by (simp add: upd_def idx_def take_Suc_conv_app_nth
          Cons_nth_drop_Suc [symmetric, of "nat i" counts] add.commute)
    finally show ?thesis .
  qed
qed

lemma prefix_loop_from_1:
  "prefix_loop cs 1 (len cs) = Inr (psum 0 cs)"
proof (cases cs)
  case Nil
  then show ?thesis by (subst prefix_loop.simps) simp
next
  case (Cons c cs')
  then show ?thesis
    using prefix_loop_psum [of 1 cs] by simp
qed

lemma sum_cnt_upto: "sum_list (map (cnt kf xs) [0..<d]) = lt_cnt kf xs d"
  by (induction d) (simp_all add: lt_cnt_Suc)

lemma lt_cnt_bucket_of:
  "p < lt_cnt kf xs nb \<Longrightarrow> \<exists>d<nb. lt_cnt kf xs d \<le> p \<and> p < lt_cnt kf xs (Suc d)"
proof (induction nb)
  case 0
  then show ?case by simp
next
  case (Suc nb)
  show ?case
  proof (cases "p < lt_cnt kf xs nb")
    case True
    with Suc.IH obtain d where "d < nb" "lt_cnt kf xs d \<le> p \<and> p < lt_cnt kf xs (Suc d)"
      by blast
    then show ?thesis by (intro exI [of _ d]) simp
  next
    case False
    with Suc.prems show ?thesis by (intro exI [of _ nb]) simp
  qed
qed

lemma cnt_take_le: "cnt kf (take m xs) d \<le> cnt kf xs d"
proof -
  have "cnt kf xs d = cnt kf (take m xs @ drop m xs) d" by simp
  then show ?thesis by (simp del: append_take_drop_id)
qed

lemma place_loop_places:
  assumes "\<forall>x\<in>set vec. bucket x = Inr (kf x) \<and> kf x < nb"
    and "m \<le> length vec" and "i = int m - 1"
    and "length counts = nb" and "length outp = length vec"
    and "\<forall>d<nb. counts ! d = lt_cnt kf vec d + cnt kf (take m vec) d"
    and "\<forall>d<nb. \<forall>p. lt_cnt kf vec d + cnt kf (take m vec) d \<le> p \<and> p < lt_cnt kf vec (Suc d)
           \<longrightarrow> outp ! p = bconcat kf nb vec ! p"
  shows "\<exists>out. place_loop bucket vec i counts outp = Inr out \<and> length out = length vec
           \<and> (\<forall>d<nb. \<forall>p. lt_cnt kf vec d \<le> p \<and> p < lt_cnt kf vec (Suc d)
                 \<longrightarrow> out ! p = bconcat kf nb vec ! p)"
  using assms(2-)
proof (induction m arbitrary: i counts outp)
  case 0
  then show ?case
    by (subst place_loop.simps) simp
next
  case (Suc m)
  let ?x = "vec ! m"
  let ?d = "kf ?x"
  let ?c = "counts ! ?d"
  from Suc.prems have m: "m < length vec" and i: "i = int m" "0 \<le> i" "nat i = m"
    by auto
  then have inb: "inb vec i" by (simp add: inb_def)
  have "?x \<in> set vec" using m by simp
  with assms(1) have b: "bucket ?x = Inr ?d" and d: "?d < nb" by auto
  have tk: "take (Suc m) vec = take m vec @ [?x]"
    using m by (simp add: take_Suc_conv_app_nth)
  have c: "?c = Suc (lt_cnt kf vec ?d + cnt kf (take m vec) ?d)"
    using Suc.prems(5) d by (simp add: tk cnt_Cons)
  have "cnt kf (take (Suc m) vec) ?d \<le> cnt kf vec ?d"
    by (rule cnt_take_le)
  then have "?c \<le> lt_cnt kf vec (Suc ?d)"
    using Suc.prems(5) d by (simp add: lt_cnt_Suc)
  also have "\<dots> \<le> lt_cnt kf vec nb"
    using d by (intro lt_cnt_mono) simp
  also have "\<dots> = length vec"
    using assms(1) by (simp add: lt_cnt_all)
  finally have cle: "?c \<le> length vec" .
  let ?counts = "counts[?d := ?c - 1]"
  let ?outp = "outp[?c - 1 := ?x]"
  have step: "place_loop bucket vec i counts outp = place_loop bucket vec (i - 1) ?counts ?outp"
    using i inb b d c cle Suc.prems(3,4)
    by (subst place_loop.simps) (simp add: idx_def Let_def)
  have pos: "bconcat kf nb vec ! (?c - 1) = ?x"
    using bconcat_position [of m vec kf nb] m d c by simp
  have "\<exists>out. place_loop bucket vec (i - 1) ?counts ?outp = Inr out \<and> length out = length vec
           \<and> (\<forall>d<nb. \<forall>p. lt_cnt kf vec d \<le> p \<and> p < lt_cnt kf vec (Suc d)
                 \<longrightarrow> out ! p = bconcat kf nb vec ! p)"
  proof (rule Suc.IH)
    show "m \<le> length vec" using m by simp
    show "i - 1 = int m - 1" using i by simp
    show "length ?counts = nb" using Suc.prems(3) by simp
    show "length ?outp = length vec" using Suc.prems(4) by simp
    show "\<forall>e<nb. ?counts ! e = lt_cnt kf vec e + cnt kf (take m vec) e"
    proof (intro allI impI)
      fix e assume e: "e < nb"
      show "?counts ! e = lt_cnt kf vec e + cnt kf (take m vec) e"
      proof (cases "e = ?d")
        case True
        then show ?thesis using c Suc.prems(3) d by simp
      next
        case False
        then show ?thesis using Suc.prems(3,5) e by (simp add: tk cnt_Cons)
      qed
    qed
    show "\<forall>e<nb. \<forall>p. lt_cnt kf vec e + cnt kf (take m vec) e \<le> p \<and> p < lt_cnt kf vec (Suc e)
           \<longrightarrow> ?outp ! p = bconcat kf nb vec ! p"
    proof (intro allI impI)
      fix e p
      assume e: "e < nb" and p: "lt_cnt kf vec e + cnt kf (take m vec) e \<le> p \<and> p < lt_cnt kf vec (Suc e)"
      show "?outp ! p = bconcat kf nb vec ! p"
      proof (cases "p = ?c - 1")
        case True
        then show ?thesis using pos cle c Suc.prems(4) by simp
      next
        case False
        then have "lt_cnt kf vec e + cnt kf (take (Suc m) vec) e \<le> p"
          using p c by (auto simp: tk cnt_Cons)
        with Suc.prems(6) e p have "outp ! p = bconcat kf nb vec ! p" by blast
        with False show ?thesis by simp
      qed
    qed
  qed
  with step show ?case by simp
qed

lemma place_loop_bconcat:
  assumes "\<forall>x\<in>set vec. bucket x = Inr (kf x) \<and> kf x < nb"
    and "length counts = nb" and "length outp = length vec"
    and "\<forall>d<nb. counts ! d = lt_cnt kf vec (Suc d)"
  shows "place_loop bucket vec (len vec - 1) counts outp = Inr (bconcat kf nb vec)"
proof -
  have "\<exists>out. place_loop bucket vec (len vec - 1) counts outp = Inr out \<and> length out = length vec
           \<and> (\<forall>d<nb. \<forall>p. lt_cnt kf vec d \<le> p \<and> p < lt_cnt kf vec (Suc d)
                 \<longrightarrow> out ! p = bconcat kf nb vec ! p)"
    using assms by (intro place_loop_places [where m = "length vec"]) (auto simp: lt_cnt_Suc)
  then obtain out where out: "place_loop bucket vec (len vec - 1) counts outp = Inr out"
      "length out = length vec"
      "\<And>d p. d < nb \<Longrightarrow> lt_cnt kf vec d \<le> p \<Longrightarrow> p < lt_cnt kf vec (Suc d) \<Longrightarrow> out ! p = bconcat kf nb vec ! p"
    by blast
  have n: "lt_cnt kf vec nb = length vec"
    using assms(1) by (simp add: lt_cnt_all)
  have "out = bconcat kf nb vec"
  proof (rule nth_equalityI)
    show "length out = length (bconcat kf nb vec)"
      using out(2) n by (simp add: length_bconcat)
  next
    fix p assume "p < length out"
    then have "p < lt_cnt kf vec nb" using out(2) n by simp
    from lt_cnt_bucket_of [OF this] out(3) show "out ! p = bconcat kf nb vec ! p"
      by blast
  qed
  with out(1) show ?thesis by simp
qed

text \<open>The three loops in sequence, with the bound of the second loop written as the
  length of the array (\<^verbatim>\<open>len(counts)\<close>) or as the number of buckets.\<close>

lemma counting_loops_steps:
  assumes "\<forall>x\<in>set vec. bucket x = Inr (kf x) \<and> kf x < nb"
  shows "count_loop bucket vec 0 (replicate nb 0) = Inr (map (cnt kf vec) [0..<nb])"
    and "prefix_loop (map (cnt kf vec) [0..<nb]) 1 (int nb) = Inr (psum 0 (map (cnt kf vec) [0..<nb]))"
    and "place_loop bucket vec (len vec - 1) (psum 0 (map (cnt kf vec) [0..<nb])) (replicate (length vec) z)
        = Inr (bconcat kf nb vec)"
    and "copy vec (bconcat kf nb vec) = bconcat kf nb vec"
proof -
  let ?c1 = "map (cnt kf vec) [0..<nb]"
  show "count_loop bucket vec 0 (replicate nb 0) = Inr ?c1"
    using count_loop_counts [of vec bucket kf "replicate nb 0" 0] assms by simp
  show "prefix_loop ?c1 1 (int nb) = Inr (psum 0 ?c1)"
    using prefix_loop_from_1 [of ?c1] by simp
  have "\<forall>d<nb. psum 0 ?c1 ! d = lt_cnt kf vec (Suc d)"
    by (simp add: psum_nth take_map sum_cnt_upto del: upt_Suc)
  then show "place_loop bucket vec (len vec - 1) (psum 0 ?c1) (replicate (length vec) z)
        = Inr (bconcat kf nb vec)"
    using assms by (intro place_loop_bconcat) simp_all
  have "length (bconcat kf nb vec) = length vec"
    using assms by (simp add: length_bconcat lt_cnt_all)
  then show "copy vec (bconcat kf nb vec) = bconcat kf nb vec"
    by (simp add: copy_def)
qed

lemma counting_loops_bconcat:
  assumes "\<forall>x\<in>set vec. bucket x = Inr (kf x) \<and> kf x < nb"
  shows "then_do (count_loop bucket vec 0 (replicate nb 0)) (\<lambda>counts1.
         then_do (prefix_loop counts1 1 (len counts1)) (\<lambda>counts2.
         then_do (place_loop bucket vec (len vec - 1) counts2 (replicate (length vec) z)) (\<lambda>output'.
         Inr (copy vec output')))) = Inr (bconcat kf nb vec)"
  using counting_loops_steps(1,2,4) [OF assms] counting_loops_steps(3) [OF assms, where z = z] by simp

lemma counting_loops_bconcat_bound:
  assumes "\<forall>x\<in>set vec. bucket x = Inr (kf x) \<and> kf x < nb"
  shows "then_do (count_loop bucket vec 0 (replicate nb 0)) (\<lambda>counts1.
         then_do (prefix_loop counts1 1 (int nb)) (\<lambda>counts2.
         then_do (place_loop bucket vec (len vec - 1) counts2 (replicate (length vec) z)) (\<lambda>output'.
         Inr (copy vec output')))) = Inr (bconcat kf nb vec)"
  using counting_loops_steps(1,2,4) [OF assms] counting_loops_steps(3) [OF assms, where z = z] by simp

lemma mset_bconcat: "mset (bconcat kf nb xs) = filter_mset (\<lambda>x. kf x < nb) (mset xs)"
proof (induction nb)
  case 0
  then show ?case by (simp add: bconcat_def)
next
  case (Suc nb)
  have "filter_mset (\<lambda>x. kf x < Suc nb) (mset xs)
      = filter_mset (\<lambda>x. kf x < nb) (mset xs) + filter_mset (\<lambda>x. kf x = nb) (mset xs)"
    by (rule multiset_eqI) auto
  with Suc show ?case by (simp only: bconcat_Suc mset_append mset_filter)
qed

lemma set_bconcat: "set (bconcat kf nb xs) = {x \<in> set xs. kf x < nb}"
  using arg_cong [OF mset_bconcat, of set_mset kf nb xs] by simp

lemma filter_bconcat:
  "filter (\<lambda>x. kf x = k) (bconcat kf nb xs) = (if k < nb then filter (\<lambda>x. kf x = k) xs else [])"
proof (induction nb)
  case 0
  then show ?case by (simp add: bconcat_def)
next
  case (Suc nb)
  have "filter (\<lambda>x. kf x = k) (filter (\<lambda>x. kf x = nb) xs)
      = (if k = nb then filter (\<lambda>x. kf x = nb) xs else [])"
    by (induction xs) auto
  with Suc show ?case by (simp add: bconcat_Suc del: filter_filter)
qed

lemma sorted_bconcat: "sorted (map kf (bconcat kf nb xs))"
proof (induction nb)
  case 0
  then show ?case by (simp add: bconcat_def)
next
  case (Suc nb)
  have "sorted (map kf (filter (\<lambda>x. kf x = nb) xs))"
    by (induction xs) auto
  with Suc show ?case
    by (auto simp: bconcat_Suc sorted_append set_bconcat)
qed

lemma bconcat_sort_key:
  assumes "\<forall>x\<in>set xs. kf x < nb"
  shows "bconcat kf nb xs = sort_key kf xs"
proof (rule properties_for_sort_key [symmetric])
  have "filter (\<lambda>x. kf x < nb) xs = xs"
    using assms by (simp add: filter_id_conv)
  then have "mset (filter (\<lambda>x. kf x < nb) xs) = mset xs"
    by simp
  then show "mset (bconcat kf nb xs) = mset xs"
    by (simp only: mset_bconcat mset_filter)
  show "sorted (map kf (bconcat kf nb xs))"
    by (rule sorted_bconcat)
  fix k assume "k \<in> set (bconcat kf nb xs)"
  then have "kf k < nb" by (simp add: set_bconcat)
  moreover have "(\<lambda>x. kf k = kf x) = (\<lambda>x. kf x = kf k)" by auto
  ultimately show "filter (\<lambda>x. kf k = kf x) (bconcat kf nb xs) = filter (\<lambda>x. kf k = kf x) xs"
    using filter_bconcat [of kf "kf k" nb xs] by simp
qed

text \<open>The passes of the source.\<close>

definition digit :: "uint \<Rightarrow> uint \<Rightarrow> nat" where
  "digit exp v = unat ((v div exp) mod 10)"

lemma digit_less: "digit exp v < 10"
proof -
  have "(v div exp) mod 10 < 10"
    by (rule word_mod_less_divisor) simp
  then show ?thesis
    by (simp add: digit_def word_less_nat_alt)
qed

lemma radixIntCountSort_on_sort_key:
  assumes "exp \<noteq> 0"
  shows "radixIntCountSort_on val z vec exp = Inr (sort_key (\<lambda>x. digit exp (val x)) vec)"
proof -
  have "\<forall>x\<in>set vec. digit_bucket exp (val x) = Inr (digit exp (val x)) \<and> digit exp (val x) < 10"
    using assms by (simp add: digit_bucket_def digit_def NumDigits_def digit_less [unfolded digit_def])
  from counting_loops_bconcat_bound [OF this, where z = z]
  have "radixIntCountSort_on val z vec exp = Inr (bconcat (\<lambda>x. digit exp (val x)) 10 vec)"
    by (simp add: radixIntCountSort_on_def NumDigits_def Let_def)
  then show ?thesis
    by (simp add: bconcat_sort_key digit_less)
qed

section \<open>The two radix sorts\<close>

lemma scatter_buckets:
  assumes "divisor \<noteq> 0" and "0 \<le> i" and "length ra = 10"
  shows "LessEfficientRadixSort_scatter vec divisor i ra =
         Inr (map (\<lambda>d. ra ! d @ filter (\<lambda>x. digit divisor x = d) (drop (nat i) vec)) [0..<10])"
  using assms
proof (induction vec divisor i ra rule: LessEfficientRadixSort_scatter.induct)
  case (1 vec divisor i ra)
  show ?case
  proof (cases "i < len vec")
    case False
    have "map (\<lambda>d. ra ! d) [0..<10] = ra"
      using "1.prems"(3) map_nth [of ra] by simp
    with False show ?thesis
      by (subst LessEfficientRadixSort_scatter.simps) simp
  next
    case True
    let ?x = "vec ! nat i"
    let ?d = "digit divisor ?x"
    let ?ra = "ra[?d := ra ! ?d @ [?x]]"
    from True "1.prems"(2) have inb: "inb vec i" and n: "nat i < length vec"
      by (auto simp: inb_def)
    have b: "digit_bucket divisor ?x = Inr ?d" and k: "?d < length ra"
      using "1.prems"(1,3) digit_less [of divisor ?x]
      by (simp_all add: digit_bucket_def digit_def NumDigits_def)
    have d: "drop (nat i) vec = ?x # drop (nat (i + 1)) vec"
      using n "1.prems"(2) by (simp add: Cons_nth_drop_Suc nat_add_distrib)
    have "LessEfficientRadixSort_scatter vec divisor i ra
        = LessEfficientRadixSort_scatter vec divisor (i + 1) ?ra"
      using True inb b k by (subst LessEfficientRadixSort_scatter.simps) (simp add: idx_def)
    also have "\<dots> = Inr (map (\<lambda>d. ?ra ! d @ filter (\<lambda>x. digit divisor x = d) (drop (nat (i + 1)) vec)) [0..<10])"
      using "1.IH" [OF True _ b [unfolded idx_def [symmetric]]] inb k "1.prems" by (simp add: idx_def)
    also have "map (\<lambda>d. ?ra ! d @ filter (\<lambda>x. digit divisor x = d) (drop (nat (i + 1)) vec)) [0..<10]
             = map (\<lambda>d. ra ! d @ filter (\<lambda>x. digit divisor x = d) (drop (nat i) vec)) [0..<10]"
    proof (rule map_cong [OF refl])
      fix e assume "e \<in> set [0..<10]"
      then have "e < length ra" using "1.prems"(3) by simp
      then show "?ra ! e @ filter (\<lambda>x. digit divisor x = e) (drop (nat (i + 1)) vec)
               = ra ! e @ filter (\<lambda>x. digit divisor x = e) (drop (nat i) vec)"
        by (cases "e = ?d") (simp_all add: d)
    qed
    finally show ?thesis .
  qed
qed

lemma write_all_writes:
  "0 \<le> k \<Longrightarrow> nat k + length xs \<le> length vec \<Longrightarrow>
   write_all vec k xs = Inr (take (nat k) vec @ xs @ drop (nat k + length xs) vec, k + len xs)"
proof (induction xs arbitrary: vec k)
  case Nil
  then show ?case by simp
next
  case (Cons x xs)
  from Cons.prems have inb: "inb vec k" and n: "nat k < length vec"
    by (auto simp: inb_def)
  have "write_all (upd vec k x) (k + 1) xs
      = Inr (take (nat (k + 1)) (upd vec k x) @ xs @ drop (nat (k + 1) + length xs) (upd vec k x),
             k + 1 + len xs)"
    using Cons.prems by (intro Cons.IH) auto
  also have "take (nat (k + 1)) (upd vec k x) = take (nat k) vec @ [x]"
    using n Cons.prems(1) by (simp add: upd_def nat_add_distrib take_Suc_conv_app_nth)
  also have "drop (nat (k + 1) + length xs) (upd vec k x) = drop (nat k + length (x # xs)) vec"
    using Cons.prems(1) by (simp add: upd_def nat_add_distrib)
  finally show ?case using inb by simp
qed

lemma gather_writes:
  "0 \<le> k \<Longrightarrow> nat k + length (concat bs) \<le> length vec \<Longrightarrow>
   LessEfficientRadixSort_gather vec k bs
     = Inr (take (nat k) vec @ concat bs @ drop (nat k + length (concat bs)) vec)"
proof (induction bs arbitrary: vec k)
  case Nil
  then show ?case by simp
next
  case (Cons b bs)
  let ?vec = "take (nat k) vec @ b @ drop (nat k + length b) vec"
  have w: "write_all vec k b = Inr (?vec, k + len b)"
    using Cons.prems by (intro write_all_writes) auto
  have "LessEfficientRadixSort_gather ?vec (k + len b) bs
      = Inr (take (nat (k + len b)) ?vec @ concat bs @ drop (nat (k + len b) + length (concat bs)) ?vec)"
    using Cons.prems by (intro Cons.IH) auto
  also have "take (nat (k + len b)) ?vec = take (nat k) vec @ b"
    using Cons.prems by (simp add: nat_add_distrib)
  also have "drop (nat (k + len b) + length (concat bs)) ?vec
           = drop (nat k + length (concat (b # bs))) vec"
    using Cons.prems by (simp add: nat_add_distrib ac_simps)
  finally show ?case using w by simp
qed

lemma LessEfficientRadixSort_pass_bconcat:
  assumes "divisor \<noteq> 0"
  shows "LessEfficientRadixSort_pass vec divisor = Inr (bconcat (digit divisor) 10 vec)"
proof -
  have s: "LessEfficientRadixSort_scatter vec divisor 0 (replicate 10 [])
         = Inr (map (\<lambda>d. filter (\<lambda>x. digit divisor x = d) vec) [0..<10])"
    using scatter_buckets [OF assms, of 0 "replicate 10 []" vec] by simp
  have c: "concat (map (\<lambda>d. filter (\<lambda>x. digit divisor x = d) vec) [0..<10]) = bconcat (digit divisor) 10 vec"
    by (simp add: bconcat_def)
  have l: "length (bconcat (digit divisor) 10 vec) = length vec"
    by (simp add: length_bconcat lt_cnt_all digit_less)
  have "LessEfficientRadixSort_gather vec 0 (map (\<lambda>d. filter (\<lambda>x. digit divisor x = d) vec) [0..<10])
      = Inr (bconcat (digit divisor) 10 vec)"
    using gather_writes [of 0 "map (\<lambda>d. filter (\<lambda>x. digit divisor x = d) vec) [0..<10]" vec]
    by (simp only: c l) simp
  with s show ?thesis
    by (simp add: LessEfficientRadixSort_pass_def NumDigits_def)
qed

lemma LessEfficientRadixSort_pass_sort_key:
  "divisor \<noteq> 0 \<Longrightarrow> LessEfficientRadixSort_pass vec divisor = Inr (sort_key (digit divisor) vec)"
  by (simp add: LessEfficientRadixSort_pass_bconcat bconcat_sort_key digit_less)

lemma passes_by_zero:
  "radixIntCountSort vec 0 = LessEfficientRadixSort_pass vec 0"
proof (cases vec)
  case Nil
  have "prefix_loop (replicate 10 0) 1 10 = Inr (psum 0 (replicate 10 0))"
    using prefix_loop_from_1 [of "replicate 10 0"] by simp
  moreover have "LessEfficientRadixSort_gather [] 0 (replicate 10 []) = Inr []"
    using gather_writes [of 0 "replicate 10 []" "[]"] by simp
  ultimately show ?thesis using Nil
    by (simp add: radixIntCountSort_def radixIntCountSort_on_def LessEfficientRadixSort_pass_def
        count_loop.simps place_loop.simps LessEfficientRadixSort_scatter.simps
        NumDigits_def copy_def)
next
  case (Cons x xs)
  then show ?thesis
    by (simp add: radixIntCountSort_def radixIntCountSort_on_def LessEfficientRadixSort_pass_def
        count_loop.simps [of _ _ 0] LessEfficientRadixSort_scatter.simps [of _ _ 0]
        NumDigits_def digit_bucket_def inb_def)
qed

lemma radix_loops_equal:
  "IntRadixSort_loop (\<lambda>v. v) 0 vec mx exp = LessEfficientRadixSort_loop vec mx exp"
proof (induction vec mx exp rule: LessEfficientRadixSort_loop.induct)
  case (1 vec mx divisor)
  show ?case
  proof (cases "divisor = 0")
    case True
    then show ?thesis
      by (subst IntRadixSort_loop.simps, subst LessEfficientRadixSort_loop.simps) simp
  next
    case False
    then show ?thesis
      using "1.IH"
      by (subst IntRadixSort_loop.simps, subst LessEfficientRadixSort_loop.simps)
         (simp add: radixIntCountSort_on_sort_key LessEfficientRadixSort_pass_sort_key)
  qed
qed

text \<open>
  Claim C7: \<^verbatim>\<open>LessEfficientRadixSort\<close> and \<^verbatim>\<open>IntRadixSort\<close>, run on equal slices of
  \<^verbatim>\<open>uint\<close>, end with the same contents. The two loops go through the same values of
  \<^verbatim>\<open>exp\<close> and \<^verbatim>\<open>divisor\<close>, and one pass of either does the same to the slice, so the
  slices agree after every pass; if the loop condition panics, it does so in both after the
  same passes.
\<close>

theorem radix_sorts_equivalent:
  "IntRadixSort vec = LessEfficientRadixSort vec
   \<and> radixIntCountSort vec exp = LessEfficientRadixSort_pass vec exp"
proof -
  have "radixIntCountSort vec exp = LessEfficientRadixSort_pass vec exp"
  proof (cases "exp = 0")
    case True
    then show ?thesis by (simp add: passes_by_zero)
  next
    case False
    then show ?thesis
      by (simp add: radixIntCountSort_def radixIntCountSort_on_sort_key
          LessEfficientRadixSort_pass_sort_key)
  qed
  then show ?thesis
    by (simp add: IntRadixSort_def IntRadixSort_on_def LessEfficientRadixSort_def radix_loops_equal)
qed

theorem radix_sorts_equivalent_witness:
  "IntRadixSort [170, 45, 75, 90, 802, 24, 2, 66] = LessEfficientRadixSort [170, 45, 75, 90, 802, 24, 2, 66]
   \<and> radixIntCountSort [170, 45, 75, 90, 802, 24, 2, 66] 10
       = LessEfficientRadixSort_pass [170, 45, 75, 90, 802, 24, 2, 66] 10"
  by (rule radix_sorts_equivalent)

section \<open>String radix sort: buckets and non-ASCII bytes\<close>

definition skey :: "nat \<Rightarrow> string \<Rightarrow> nat" where
  "skey p s = (if p < length s then unat ((of_char (s ! p) :: 8 word) + 1) else 0)"

lemma string_bucket_skey: "0 \<le> curIdx \<Longrightarrow> string_bucket curIdx s = Inr (skey (nat curIdx) s)"
  by (auto simp: string_bucket_def skey_def inb_def idx_def)

lemma of_char_word_unat: "unat (of_char c :: 8 word) = of_char c"
proof -
  have "(of_char c :: 8 word) = of_nat (of_char c)"
    by (simp add: of_nat_of_char)
  then have "unat (of_char c :: 8 word) = of_char c mod 256"
    by (simp only: unat_of_nat) simp
  then show ?thesis by simp
qed

lemma skey_byte:
  assumes "p < length s"
  shows "skey p s = (if of_char (s ! p) = (255::nat) then 0 else of_char (s ! p) + 1)"
proof -
  define n :: nat where "n = of_char (s ! p)"
  have n: "n < 256" by (simp add: n_def)
  have "unat ((of_char (s ! p) :: 8 word) + 1) = (n + 1) mod 256"
    by (simp add: unat_word_ariths of_char_word_unat n_def)
  moreover have "(n + 1) mod 256 = (if n = 255 then 0 else n + 1)"
    using n by auto
  ultimately show ?thesis using assms
    by (simp add: skey_def n_def)
qed

lemma radixStringCountSort_on_sort_key:
  assumes "0 \<le> curIdx" and "\<forall>x\<in>set vec. skey (nat curIdx) (val x) < 129"
  shows "radixStringCountSort_on val z vec curIdx = Inr (sort_key (\<lambda>x. skey (nat curIdx) (val x)) vec)"
proof -
  have "\<forall>x\<in>set vec. string_bucket curIdx (val x) = Inr (skey (nat curIdx) (val x))
          \<and> skey (nat curIdx) (val x) < 129"
    using assms by (simp add: string_bucket_skey)
  from counting_loops_bconcat [OF this, where z = z]
  show ?thesis
    using assms(2) by (simp add: radixStringCountSort_on_def bconcat_sort_key)
qed

lemma radixStringCountSort_on_panics:
  assumes "0 \<le> curIdx" and "\<exists>x\<in>set vec. \<not> skey (nat curIdx) (val x) < 129"
  shows "radixStringCountSort_on val z vec curIdx = Inl IndexOutOfRange"
proof -
  have "count_loop (\<lambda>x. string_bucket curIdx (val x)) vec 0 (replicate 129 0) = Inl IndexOutOfRange"
    using assms by (intro count_loop_panics [where kf = "\<lambda>x. skey (nat curIdx) (val x)"])
      (simp_all add: string_bucket_skey)
  then show ?thesis
    by (simp add: radixStringCountSort_on_def)
qed

lemma StringRadixSort_loop_panics:
  assumes "x \<in> set vec" and "p \<le> m" and "\<not> skey p (val x) < 129" and "i = int m"
  shows "StringRadixSort_loop val z vec i = Inl IndexOutOfRange"
  using assms
proof (induction m arbitrary: vec i)
  case 0
  then have "radixStringCountSort_on val z vec 0 = Inl IndexOutOfRange"
    by (intro radixStringCountSort_on_panics) auto
  with 0 show ?case
    by (subst StringRadixSort_loop.simps) simp
next
  case (Suc m)
  show ?case
  proof (cases "\<forall>y\<in>set vec. skey (Suc m) (val y) < 129")
    case False
    then have "radixStringCountSort_on val z vec i = Inl IndexOutOfRange"
      using Suc.prems(4) by (intro radixStringCountSort_on_panics) (auto simp: nat_add_distrib)
    with Suc.prems(4) show ?thesis
      by (subst StringRadixSort_loop.simps) simp
  next
    case True
    let ?vec = "sort_key (\<lambda>x. skey (Suc m) (val x)) vec"
    from True have r: "radixStringCountSort_on val z vec i = Inr ?vec"
      using Suc.prems(4) radixStringCountSort_on_sort_key [of i vec val z] by (simp add: nat_add_distrib)
    from True Suc.prems(1,3) have "p \<noteq> Suc m" by auto
    with Suc.prems(2) have "p \<le> m" by simp
    then have "StringRadixSort_loop val z ?vec (int m) = Inl IndexOutOfRange"
      using Suc.prems(1,3) by (intro Suc.IH) auto
    with r Suc.prems(4) show ?thesis
      by (subst StringRadixSort_loop.simps) simp
  qed
qed

lemma StringRadixSort_maxLen_value:
  assumes "0 \<le> i"
  shows "StringRadixSort_maxLen val vec i m = Inr (fold (\<lambda>x m. max m (len (val x))) (drop (nat i) vec) m)"
  using assms
proof (induction val vec i m rule: StringRadixSort_maxLen.induct)
  case (1 val vec i maxLen)
  show ?case
  proof (cases "i < len vec")
    case False
    then show ?thesis by (subst StringRadixSort_maxLen.simps) simp
  next
    case True
    with "1.prems" have inb: "inb vec i" and n: "nat i < length vec"
      by (auto simp: inb_def)
    have d: "drop (nat i) vec = vec ! nat i # drop (nat (i + 1)) vec"
      using n "1.prems" by (simp add: Cons_nth_drop_Suc nat_add_distrib)
    show ?thesis
      using True inb "1.IH" [OF True] "1.prems"
      by (subst StringRadixSort_maxLen.simps) (simp add: d idx_def max_def)
  qed
qed

lemma fold_max_ge: "(m::int) \<le> fold (\<lambda>x m. max m (f x)) xs m"
  by (induction xs arbitrary: m) (auto intro: order_trans [OF max.cobounded1])

lemma fold_max_ge_elem: "x \<in> set xs \<Longrightarrow> f x \<le> fold (\<lambda>x m. max m (f x)) xs (m::int)"
proof (induction xs arbitrary: m)
  case Nil
  then show ?case by simp
next
  case (Cons y ys)
  show ?case
  proof (cases "x = y")
    case True
    have "f y \<le> max m (f y)" by simp
    also have "\<dots> \<le> fold (\<lambda>x m. max m (f x)) ys (max m (f y))" by (rule fold_max_ge)
    finally show ?thesis using True by simp
  next
    case False
    with Cons show ?thesis by simp
  qed
qed

lemma StringRadixSort_on_panics:
  assumes "2 \<le> length vec" and "x \<in> set vec" and "\<not> skey p (val x) < 129"
  shows "StringRadixSort_on val z vec = Inl IndexOutOfRange"
proof -
  let ?m = "fold (\<lambda>x m. max m (len (val x))) (drop 1 vec) (len (val (idx vec 0)))"
  from assms(3) have p: "p < length (val x)"
    by (auto simp: skey_def split: if_splits)
  have vec: "vec = idx vec 0 # drop 1 vec"
    using assms(1) by (cases vec) (auto simp: idx_def)
  have "len (val x) \<le> ?m"
  proof (cases "x = idx vec 0")
    case True
    then show ?thesis using fold_max_ge [of "len (val (idx vec 0))"] by simp
  next
    case False
    with assms(2) vec have "x \<in> set (drop 1 vec)"
      by (metis set_ConsD)
    then show ?thesis by (rule fold_max_ge_elem)
  qed
  with p have m: "int p \<le> ?m - 1" by simp
  then have "StringRadixSort_loop val z vec (?m - 1) = Inl IndexOutOfRange"
    using assms(2,3) by (intro StringRadixSort_loop_panics [where m = "nat (?m - 1)" and p = p and x = x]) auto
  moreover have "StringRadixSort_maxLen val vec 1 (len (val (idx vec 0))) = Inr ?m"
    using StringRadixSort_maxLen_value [of 1 val vec] by simp
  ultimately show ?thesis
    using assms(1) by (simp add: StringRadixSort_on_def inb_def)
qed

text \<open>
  Claim C9 says that a byte of value 128 or more at a position a pass examines always
  gives a bucket index outside the 129-entry \<^verbatim>\<open>counts\<close> array. The bucket is a
  \<^verbatim>\<open>uint8\<close>, so for the byte 255 the sum \<^verbatim>\<open>uint8(b) + 1\<close> wraps to 0, the bucket of the
  strings that are too short: on the two strings \<open>[0xFF]\<close> and \<open>''a''\<close> the index is in
  range and the sort returns.
\<close>

theorem nonascii_byte_255_in_range:
  "string_bucket 0 [CHR 0xFF] = Inr 0 \<and> (0::nat) < 129
   \<and> StringRadixSort [[CHR 0xFF], ''a''] = Inr [[CHR 0xFF], ''a'']"
proof -
  have k: "skey 0 [CHR 0xFF] = 0" "skey 0 ''a'' = 98"
    by (simp_all add: skey_def)
  have "radixStringCountSort_on (\<lambda>s. s) [] [[CHR 0xFF], ''a''] 0
      = Inr (sort_key (\<lambda>x. skey 0 x) [[CHR 0xFF], ''a''])"
    using radixStringCountSort_on_sort_key [of 0 "[[CHR 0xFF], ''a'']" "\<lambda>s. s" "[]"] k by simp
  then have "StringRadixSort [[CHR 0xFF], ''a''] = Inr [[CHR 0xFF], ''a'']"
    using k
    by (simp add: StringRadixSort_def StringRadixSort_on_def inb_def idx_def
        StringRadixSort_maxLen.simps [of _ _ 1] StringRadixSort_maxLen.simps [of _ _ 2]
        StringRadixSort_loop.simps [of _ _ _ 0] StringRadixSort_loop.simps [of _ _ _ "-1"])
  moreover have "string_bucket 0 [CHR 0xFF] = Inr 0"
    using string_bucket_skey [of 0 "[CHR 0xFF]"] k by simp
  ultimately show ?thesis by simp
qed

text \<open>
  Claim C9, amended: in a slice of at least two strings, a byte \<open>b\<close> with
  \<open>128 \<le> b \<le> 254\<close> at position \<open>p\<close> of a string gives the bucket index \<open>b + 1\<close>, which is
  at least 129, the pass at \<open>p\<close> panics with an index out of range, and so does
  \<^verbatim>\<open>StringRadixSort\<close>; the byte 255 gives the bucket index 0.
\<close>

theorem nonascii_bucket:
  assumes "2 \<le> length vec" and "s \<in> set vec" and "p < length s"
    and "128 \<le> (of_char (s ! p) :: nat)"
  shows "(of_char (s ! p) = (255::nat) \<longrightarrow> string_bucket (int p) s = Inr 0)
       \<and> (of_char (s ! p) \<noteq> (255::nat) \<longrightarrow>
            string_bucket (int p) s = Inr (of_char (s ! p) + 1)
          \<and> 129 \<le> (of_char (s ! p) + 1 :: nat)
          \<and> radixStringCountSort vec (int p) = Inl IndexOutOfRange
          \<and> StringRadixSort vec = Inl IndexOutOfRange)"
proof -
  have b: "string_bucket (int p) s = Inr (skey p s)"
    using string_bucket_skey [of "int p" s] by simp
  have k: "skey p s = (if of_char (s ! p) = (255::nat) then 0 else of_char (s ! p) + 1)"
    using assms(3) by (rule skey_byte)
  have "radixStringCountSort vec (int p) = Inl IndexOutOfRange
      \<and> StringRadixSort vec = Inl IndexOutOfRange" if "of_char (s ! p) \<noteq> (255::nat)"
  proof -
    from that k assms(4) have bad: "\<not> skey p s < 129" by simp
    then have "radixStringCountSort_on (\<lambda>s. s) [] vec (int p) = Inl IndexOutOfRange"
      using assms(2) by (intro radixStringCountSort_on_panics) auto
    moreover have "StringRadixSort_on (\<lambda>s. s) [] vec = Inl IndexOutOfRange"
      using assms(1,2) bad by (rule StringRadixSort_on_panics)
    ultimately show ?thesis
      by (simp add: radixStringCountSort_def StringRadixSort_def)
  qed
  with b k assms(4) show ?thesis by simp
qed

theorem nonascii_bucket_witness:
  "string_bucket 0 [CHR 0x80] = Inr 129
   \<and> radixStringCountSort [''a'', [CHR 0x80]] 0 = Inl IndexOutOfRange
   \<and> StringRadixSort [''a'', [CHR 0x80]] = Inl IndexOutOfRange"
  using nonascii_bucket [of "[''a'', [CHR 0x80]]" "[CHR 0x80]" 0] by simp

section \<open>Stable passes and least-significant-digit order\<close>

text \<open>Stability: for every key value, the elements with that key keep their order.\<close>

definition stable_on :: "('a \<Rightarrow> 'k) \<Rightarrow> 'a list \<Rightarrow> 'a list \<Rightarrow> bool" where
  "stable_on val xs ys \<longleftrightarrow> (\<forall>k. filter (\<lambda>x. val x = k) ys = filter (\<lambda>x. val x = k) xs)"

lemma stable_on_refl [simp]: "stable_on val xs xs"
  by (simp add: stable_on_def)

lemma stable_on_trans: "stable_on val xs ys \<Longrightarrow> stable_on val ys zs \<Longrightarrow> stable_on val xs zs"
  by (simp add: stable_on_def)

lemma stable_on_mset:
  assumes "stable_on val xs ys"
  shows "mset ys = mset xs"
proof (rule multiset_eqI)
  fix a
  have "count (mset ys) a = count (mset (filter (\<lambda>x. val x = val a) ys)) a"
    by simp
  also have "\<dots> = count (mset (filter (\<lambda>x. val x = val a) xs)) a"
    using assms by (simp only: stable_on_def)
  also have "\<dots> = count (mset xs) a"
    by simp
  finally show "count (mset ys) a = count (mset xs) a" .
qed

lemma stable_on_set: "stable_on val xs ys \<Longrightarrow> set ys = set xs"
  by (metis stable_on_mset mset_eq_setD)

lemma stable_on_length: "stable_on val xs ys \<Longrightarrow> length ys = length xs"
  by (metis stable_on_mset mset_eq_length)

lemma filter_sort_key_fixed:
  assumes "\<forall>x\<in>set xs. P x \<longrightarrow> f x = c"
  shows "filter P (sort_key f xs) = filter P xs"
proof -
  have "filter P (sort_key f xs) = filter P (filter (\<lambda>y. f y = c) (sort_key f xs))"
    using assms by (auto intro!: filter_cong)
  also have "\<dots> = filter P (filter (\<lambda>y. f y = c) xs)"
    by (simp only: sort_key_stable)
  also have "\<dots> = filter P xs"
    using assms by (auto intro!: filter_cong)
  finally show ?thesis .
qed

lemma stable_on_sort_key:
  "stable_on val xs (sort_key (\<lambda>x. f (val x)) xs)"
  unfolding stable_on_def
  by (intro allI filter_sort_key_fixed) auto

text \<open>A stable pass by \<open>f\<close> on a list sorted by \<open>g\<close> leaves it sorted by any \<open>h\<close> that orders
  by \<open>f\<close> first and by \<open>g\<close> on equal \<open>f\<close>.\<close>

lemma sorted_insort_key_lex:
  fixes f :: "'a \<Rightarrow> 'b::linorder" and h :: "'a \<Rightarrow> 'c::linorder"
  assumes "\<forall>y\<in>set ys. f y < f x \<longrightarrow> h y \<le> h x"
    and "\<forall>y\<in>set ys. f x \<le> f y \<longrightarrow> h x \<le> h y"
    and "sorted (map h ys)" and "sorted (map f ys)"
  shows "sorted (map h (insort_key f x ys))"
  using assms
proof (induction ys)
  case Nil
  then show ?case by simp
next
  case (Cons y ys)
  show ?case
  proof (cases "f x \<le> f y")
    case True
    then have "\<forall>y'\<in>set (y # ys). f x \<le> f y'"
      using Cons.prems(4) by auto
    with Cons.prems(2,3) True show ?thesis by auto
  next
    case False
    then have "sorted (map h (insort_key f x ys))"
      using Cons.prems by (intro Cons.IH) auto
    with False Cons.prems show ?thesis
      by (auto simp: set_insort_key)
  qed
qed

lemma sorted_sort_key_lex:
  fixes f :: "'a \<Rightarrow> 'b::linorder" and g :: "'a \<Rightarrow> 'd::linorder" and h :: "'a \<Rightarrow> 'c::linorder"
  assumes "\<forall>a\<in>set xs. \<forall>b\<in>set xs. f a < f b \<longrightarrow> h a \<le> h b"
    and "\<forall>a\<in>set xs. \<forall>b\<in>set xs. f a = f b \<and> g a \<le> g b \<longrightarrow> h a \<le> h b"
    and "sorted (map g xs)"
  shows "sorted (map h (sort_key f xs))"
  using assms
proof (induction xs)
  case Nil
  then show ?case by simp
next
  case (Cons x xs)
  have IH: "sorted (map h (sort_key f xs))"
    using Cons.prems by (intro Cons.IH) auto
  have "sorted (map h (insort_key f x (sort_key f xs)))"
  proof (rule sorted_insort_key_lex)
    show "\<forall>y\<in>set (sort_key f xs). f y < f x \<longrightarrow> h y \<le> h x"
      using Cons.prems(1) by auto
    show "\<forall>y\<in>set (sort_key f xs). f x \<le> f y \<longrightarrow> h x \<le> h y"
    proof (intro ballI impI)
      fix y assume y: "y \<in> set (sort_key f xs)" and le: "f x \<le> f y"
      then have yx: "y \<in> set xs" by simp
      with Cons.prems(3) have "g x \<le> g y" by auto
      with le yx Cons.prems(1,2) show "h x \<le> h y"
        by (cases "f x = f y") (auto simp: order.strict_iff_order)
    qed
    show "sorted (map h (sort_key f xs))" by (rule IH)
    show "sorted (map f (sort_key f xs))" by (rule sorted_sort_key)
  qed
  then show ?case by simp
qed

section \<open>String radix sort: order of the result\<close>

definition ascii :: "string \<Rightarrow> bool" where
  "ascii s \<longleftrightarrow> (\<forall>c\<in>set s. of_char c < (128::nat))"

lemma skey_ascii:
  "ascii s \<Longrightarrow> skey p s = (if p < length s then of_char (s ! p) + 1 else 0)"
proof (cases "p < length s")
  case False
  then show ?thesis by (simp add: skey_def)
next
  case True
  assume "ascii s"
  with True have "of_char (s ! p) < (128::nat)"
    by (simp add: ascii_def)
  with True show ?thesis by (simp add: skey_byte)
qed

lemma skey_ascii_less: "ascii s \<Longrightarrow> skey p s < 129"
  by (auto simp: skey_ascii ascii_def)

lemma drop_step: "p < length s \<Longrightarrow> drop p s = s ! p # drop (Suc p) s"
  by (simp add: Cons_nth_drop_Suc)

lemma suffix_order_less:
  assumes "ascii a" and "ascii b" and "skey p a < skey p b"
  shows "drop p a \<le> drop p b"
proof (cases "p < length a")
  case False
  then show ?thesis by simp
next
  case True
  with assms have b: "p < length b" and "(of_char (a ! p) :: nat) < of_char (b ! p)"
    by (auto simp: skey_ascii split: if_splits)
  then have "a ! p < b ! p" by (simp add: less_char_def)
  with True b show ?thesis by (simp add: drop_step)
qed

lemma suffix_order_eq:
  assumes "ascii a" and "ascii b" and "skey p a = skey p b"
    and "drop (Suc p) a \<le> drop (Suc p) b"
  shows "drop p a \<le> drop p b"
proof (cases "p < length a")
  case False
  then show ?thesis by simp
next
  case True
  with assms(1-3) have b: "p < length b" and "(of_char (a ! p) :: nat) = of_char (b ! p)"
    by (auto simp: skey_ascii split: if_splits)
  then have "a ! p = b ! p" by simp
  with True b assms(4) show ?thesis by (simp add: drop_step)
qed

lemma StringRadixSort_loop_sorts:
  assumes "\<forall>x\<in>set vec. ascii (val x)" and "i = int m - 1"
    and "sorted (map (\<lambda>x. drop m (val x)) vec)"
  shows "\<exists>ys. StringRadixSort_loop val z vec i = Inr ys \<and> stable_on val vec ys
            \<and> sorted (map val ys)"
  using assms
proof (induction m arbitrary: vec i)
  case 0
  then show ?case
    by (subst StringRadixSort_loop.simps) simp
next
  case (Suc m)
  let ?f = "\<lambda>x. skey m (val x)"
  let ?vec = "sort_key ?f vec"
  have i: "i = int m" "0 \<le> i" "nat i = m" using Suc.prems(2) by auto
  have pass: "radixStringCountSort_on val z vec i = Inr ?vec"
    using radixStringCountSort_on_sort_key [of i vec val z] Suc.prems(1) i
    by (simp add: skey_ascii_less)
  have st: "stable_on val vec ?vec"
    by (rule stable_on_sort_key)
  have "sorted (map (\<lambda>x. drop m (val x)) ?vec)"
  proof (rule sorted_sort_key_lex [where g = "\<lambda>x. drop (Suc m) (val x)"])
    show "\<forall>a\<in>set vec. \<forall>b\<in>set vec. ?f a < ?f b \<longrightarrow> drop m (val a) \<le> drop m (val b)"
      using Suc.prems(1) by (auto intro: suffix_order_less)
    show "\<forall>a\<in>set vec. \<forall>b\<in>set vec. ?f a = ?f b \<and> drop (Suc m) (val a) \<le> drop (Suc m) (val b)
            \<longrightarrow> drop m (val a) \<le> drop m (val b)"
      using Suc.prems(1) by (auto intro: suffix_order_eq)
    show "sorted (map (\<lambda>x. drop (Suc m) (val x)) vec)"
      by (rule Suc.prems(3))
  qed
  moreover have "\<forall>x\<in>set ?vec. ascii (val x)"
    using Suc.prems(1) by simp
  ultimately obtain ys where ys: "StringRadixSort_loop val z ?vec (i - 1) = Inr ys"
      "stable_on val ?vec ys" "sorted (map val ys)"
    using Suc.IH [of ?vec "i - 1"] i by auto
  have "StringRadixSort_loop val z vec i = Inr ys"
    using i pass ys(1) by (subst StringRadixSort_loop.simps) simp
  with st ys(2,3) show ?case
    by (auto intro: stable_on_trans)
qed

lemma StringRadixSort_on_sorts:
  assumes "\<forall>x\<in>set vec. ascii (val x)"
  shows "\<exists>ys. StringRadixSort_on val z vec = Inr ys \<and> stable_on val vec ys \<and> sorted (map val ys)"
proof (cases "length vec \<le> 1")
  case True
  then have "sorted (map val vec)"
    by (cases vec) auto
  with True show ?thesis
    by (simp add: StringRadixSort_on_def)
next
  case False
  let ?m = "fold (\<lambda>x m. max m (len (val x))) (drop 1 vec) (len (val (idx vec 0)))"
  have vec: "vec = idx vec 0 # drop 1 vec"
    using False by (cases vec) (auto simp: idx_def)
  have ge: "len (val x) \<le> ?m" if "x \<in> set vec" for x
  proof (cases "x = idx vec 0")
    case True
    then show ?thesis using fold_max_ge [of "len (val (idx vec 0))"] by simp
  next
    case False
    with that vec have "x \<in> set (drop 1 vec)"
      by (metis set_ConsD)
    then show ?thesis by (rule fold_max_ge_elem)
  qed
  have m0: "0 \<le> ?m"
    using fold_max_ge [of "len (val (idx vec 0))"] by (rule order_trans [rotated]) simp
  have "map (\<lambda>x. drop (nat ?m) (val x)) vec = map (\<lambda>x. []) vec"
  proof (rule map_cong [OF refl])
    fix x assume "x \<in> set vec"
    from ge [OF this] have "length (val x) \<le> nat ?m" by linarith
    then show "drop (nat ?m) (val x) = []" by simp
  qed
  then have "sorted (map (\<lambda>x. drop (nat ?m) (val x)) vec)"
    by (simp add: sorted_wrt_iff_nth_less)
  from StringRadixSort_loop_sorts [OF assms _ this, of "?m - 1" z] m0
  obtain ys where "StringRadixSort_loop val z vec (?m - 1) = Inr ys" "stable_on val vec ys"
      "sorted (map val ys)"
    by auto
  moreover have "StringRadixSort_maxLen val vec 1 (len (val (idx vec 0))) = Inr ?m"
    using StringRadixSort_maxLen_value [of 1 val vec] by simp
  ultimately show ?thesis
    using False by (auto simp: StringRadixSort_on_def inb_def)
qed

lemma proper_prefix_less: "t \<noteq> [] \<Longrightarrow> s < s @ (t :: 'a::linorder list)"
  by (induction s) (auto simp: neq_Nil_conv)

text \<open>
  Claim C3: on strings whose bytes are all below 128, \<^verbatim>\<open>StringRadixSort\<close> returns a
  permutation of its input in byte-lexicographic order, in which a string stands before
  every string it is a proper prefix of. The witness is the example of the specification.
\<close>

theorem StringRadixSort_sorts:
  assumes "\<forall>s\<in>set vec. \<forall>c\<in>set s. of_char c < (128::nat)"
  shows "\<exists>ys. StringRadixSort vec = Inr ys \<and> mset ys = mset vec \<and> sorted ys
           \<and> (\<forall>i<length ys. \<forall>j<length ys. (\<exists>t. t \<noteq> [] \<and> ys ! j = ys ! i @ t) \<longrightarrow> i < j)"
proof -
  from assms have "\<forall>x\<in>set vec. ascii x" by (simp add: ascii_def)
  from StringRadixSort_on_sorts [OF this, of "[]"]
  obtain ys where ys: "StringRadixSort vec = Inr ys" "stable_on (\<lambda>s. s) vec ys" "sorted ys"
    by (auto simp: StringRadixSort_def)
  have "i < j" if "i < length ys" "j < length ys" "t \<noteq> []" "ys ! j = ys ! i @ t" for i j t
  proof (rule ccontr)
    assume "\<not> i < j"
    then have "j \<le> i" by simp
    with ys(3) that(1) have "ys ! j \<le> ys ! i"
      by (simp add: sorted_iff_nth_mono)
    moreover have "ys ! i < ys ! j"
      using that(3,4) by (simp add: proper_prefix_less)
    ultimately show False by simp
  qed
  with ys show ?thesis
    by (auto dest: stable_on_mset)
qed

theorem StringRadixSort_sorts_witness:
  "StringRadixSort [''banana'', ''apple'', ''ab'', ''app''] = Inr [''ab'', ''app'', ''apple'', ''banana'']"
proof -
  have "\<forall>s\<in>set [''banana'', ''apple'', ''ab'', ''app'']. \<forall>c\<in>set s. of_char c < (128::nat)"
    by simp
  from StringRadixSort_sorts [OF this]
  obtain ys where ys: "StringRadixSort [''banana'', ''apple'', ''ab'', ''app''] = Inr ys"
      "mset ys = mset [''banana'', ''apple'', ''ab'', ''app'']" "sorted ys"
    by blast
  then have "sort [''banana'', ''apple'', ''ab'', ''app''] = ys"
    by (intro properties_for_sort)
  moreover have "sort [''banana'', ''apple'', ''ab'', ''app''] = [''ab'', ''app'', ''apple'', ''banana'']"
    by simp
  ultimately show ?thesis using ys(1) by simp
qed

section \<open>Integer sorts: order of the result\<close>

lemma slices_Max_Max: "xs \<noteq> [] \<Longrightarrow> slices_Max xs = Inr (Max (set xs))"
proof (cases xs)
  case Nil
  then show "xs \<noteq> [] \<Longrightarrow> ?thesis" by simp
next
  case (Cons x rest)
  have "(\<lambda>v m. max m v) = (max :: uint \<Rightarrow> uint \<Rightarrow> uint)"
    by (intro ext) (rule max.commute)
  then have "fold (\<lambda>v m. max m v) rest x = Max (set (x # rest))"
    by (simp only: Max.set_eq_fold)
  then show ?thesis
    using Cons by (simp add: slices_Max_def)
qed

lemma sorted_map_unat: "sorted (map (\<lambda>x. unat (val x)) ys) = sorted (map (val :: 'a \<Rightarrow> uint) ys)"
  by (simp add: sorted_map sorted_wrt_iff_nth_less word_le_nat_alt)

lemma makeslice_fits: "unat n \<le> 2 ^ 45 \<Longrightarrow> makeslice n z = Inr (replicate (unat n) z)"
proof -
  assume a: "unat n \<le> 2 ^ 45"
  have "(2::nat) ^ 45 < 2 ^ 63" by simp
  with a have "unat n < 2 ^ 63" by (rule le_less_trans)
  moreover from a have "unat n * 8 \<le> 2 ^ 45 * 8" by (rule mult_le_mono1)
  ultimately show ?thesis by (simp add: makeslice_def maxAlloc_def)
qed

lemma makeslice_too_long: "2 ^ 45 < unat n \<Longrightarrow> makeslice n z = Inl MakeLenOutOfRange"
proof -
  assume "2 ^ 45 < unat n"
  then have "2 ^ 45 * 8 < unat n * 8" by simp
  then show ?thesis by (simp add: makeslice_def maxAlloc_def)
qed

lemma GeneralCountingSort_on_sorts:
  assumes "\<forall>x\<in>set vec. unat (val x) < 2 ^ 45"
  shows "\<exists>ys. GeneralCountingSort_on val z vec = Inr ys \<and> stable_on val vec ys \<and> sorted (map val ys)"
proof (cases "length vec \<le> 1")
  case True
  then have "sorted (map val vec)" by (cases vec) auto
  with True show ?thesis by (simp add: GeneralCountingSort_on_def)
next
  case False
  then have ne: "map val vec \<noteq> []" by auto
  define mx where "mx = Max (set (map val vec))"
  have mx: "slices_Max (map val vec) = Inr mx"
    unfolding mx_def using ne by (rule slices_Max_Max)
  have "mx \<in> set (map val vec)"
    unfolding mx_def using ne by (intro Max_in) auto
  with assms have small: "unat mx < 2 ^ 45" by auto
  then have u: "unat (mx + 1) = unat mx + 1"
    by (simp add: unat_word_ariths)
  with small have mk: "makeslice (mx + 1) (0::nat) = Inr (replicate (unat mx + 1) 0)"
    using makeslice_fits [of "mx + 1" "0::nat"] by simp
  have le: "val x \<le> mx" if "x \<in> set vec" for x
    unfolding mx_def using that by (intro Max_ge) auto
  have b: "\<forall>x\<in>set vec. Inr (unat (val x)) = (Inr (unat (val x)) :: nat result) \<and> unat (val x) < unat mx + 1"
    using le by (auto simp: word_le_nat_alt less_Suc_eq_le)
  from counting_loops_bconcat [OF b, where z = z]
  have "GeneralCountingSort_on val z vec = Inr (bconcat (\<lambda>x. unat (val x)) (unat mx + 1) vec)"
    using False mx mk by (simp add: GeneralCountingSort_on_def)
  also have "bconcat (\<lambda>x. unat (val x)) (unat mx + 1) vec = sort_key (\<lambda>x. unat (val x)) vec"
    using b by (intro bconcat_sort_key) simp
  finally have "GeneralCountingSort_on val z vec = Inr (sort_key (\<lambda>x. unat (val x)) vec)" .
  moreover have "stable_on val vec (sort_key (\<lambda>x. unat (val x)) vec)"
    by (rule stable_on_sort_key)
  moreover have "sorted (map val (sort_key (\<lambda>x. unat (val x)) vec))"
    using sorted_sort_key [of "\<lambda>x. unat (val x)" vec] by (simp only: sorted_map_unat)
  ultimately show ?thesis by blast
qed

lemma IntegerCountingSort_fill_writes:
  assumes "counts ! unat i = c" and "unat i < length counts" and "0 \<le> index"
    and "nat index + c \<le> length vec"
  shows "IntegerCountingSort_fill vec counts index i =
         Inr (take (nat index) vec @ replicate c i @ drop (nat index + c) vec,
              counts[unat i := 0], index + int c)"
  using assms
proof (induction c arbitrary: vec counts index)
  case 0
  then have "counts[unat i := 0] = counts"
    by (metis list_update_id)
  with 0 show ?case
    by (subst IntegerCountingSort_fill.simps) simp
next
  case (Suc c)
  let ?vec = "upd vec index i"
  let ?counts = "counts[unat i := c]"
  from Suc.prems have inb: "inb vec index" and n: "nat index < length vec"
    by (auto simp: inb_def)
  have "IntegerCountingSort_fill ?vec ?counts (index + 1) i =
         Inr (take (nat (index + 1)) ?vec @ replicate c i @ drop (nat (index + 1) + c) ?vec,
              ?counts[unat i := 0], index + 1 + int c)"
    using Suc.prems by (intro Suc.IH) auto
  also have "take (nat (index + 1)) ?vec = take (nat index) vec @ [i]"
    using n Suc.prems(3) by (simp add: upd_def nat_add_distrib take_Suc_conv_app_nth)
  also have "drop (nat (index + 1) + c) ?vec = drop (nat index + Suc c) vec"
    using Suc.prems(3) by (simp add: upd_def nat_add_distrib)
  finally show ?case
    using Suc.prems inb
    by (subst IntegerCountingSort_fill.simps) (simp add: replicate_app_Cons_same)
qed

lemma unat_of_nat_small: "n < 2 ^ 63 \<Longrightarrow> unat (of_nat n :: uint) = n"
proof -
  assume "n < 2 ^ 63"
  then have "n < 2 ^ 64" by (rule less_trans) simp
  then show ?thesis by (simp add: unat_of_nat)
qed

lemma IntegerCountingSort_loop_writes:
  assumes "length counts = nb" and "nb < 2 ^ 63" and "unat i = j" and "j \<le> nb"
    and "0 \<le> index" and "nat index + sum_list (drop j counts) = length vec"
  shows "IntegerCountingSort_loop vec counts index i =
         Inr (take (nat index) vec @ concat (map (\<lambda>d. replicate (counts ! d) (of_nat d)) [j..<nb]))"
  using assms
proof (induction "nb - j" arbitrary: j i vec counts index)
  case 0
  then have "j = nb" by simp
  with 0 have "\<not> i < of_nat (length counts)"
    by (simp add: word_less_nat_alt unat_of_nat_small)
  with 0 \<open>j = nb\<close> show ?case
    by (subst IntegerCountingSort_loop.simps) simp
next
  case (Suc k)
  then have j: "j < nb" by simp
  let ?c = "counts ! j"
  let ?vec = "take (nat index) vec @ replicate ?c i @ drop (nat index + ?c) vec"
  let ?counts = "counts[j := 0]"
  have lt: "i < of_nat (length counts)"
    using j Suc.prems by (simp add: word_less_nat_alt unat_of_nat_small)
  have dj: "drop j counts = ?c # drop (Suc j) counts"
    using j Suc.prems(1) by (simp add: Cons_nth_drop_Suc)
  have fill: "IntegerCountingSort_fill vec counts index i = Inr (?vec, ?counts, index + int ?c)"
    using Suc.prems j dj
    by (intro IntegerCountingSort_fill_writes [of counts i ?c index vec, unfolded \<open>unat i = j\<close>]) auto
  have i: "of_nat j = i"
    using Suc.prems(3) by (metis of_nat_unat ucast_id)
  have "IntegerCountingSort_loop ?vec ?counts (index + int ?c) (i + 1) =
         Inr (take (nat (index + int ?c)) ?vec
              @ concat (map (\<lambda>d. replicate (?counts ! d) (of_nat d)) [Suc j..<nb]))"
  proof (rule Suc.hyps(1))
    show "k = nb - Suc j" using Suc.hyps(2) by simp
    show "length ?counts = nb" using Suc.prems(1) by simp
    show "nb < 2 ^ 63" by (rule Suc.prems(2))
    show "unat (i + 1) = Suc j" using lt Suc.prems(3) by (simp add: uint_less_Suc)
    show "Suc j \<le> nb" using j by simp
    show "0 \<le> index + int ?c" using Suc.prems(5) by simp
    show "nat (index + int ?c) + sum_list (drop (Suc j) ?counts) = length ?vec"
      using Suc.prems(5,6) dj by (simp add: nat_add_distrib)
  qed
  also have "take (nat (index + int ?c)) ?vec = take (nat index) vec @ replicate ?c i"
    using Suc.prems(5,6) dj by (simp add: nat_add_distrib)
  also have "map (\<lambda>d. replicate (?counts ! d) (of_nat d)) [Suc j..<nb]
           = map (\<lambda>d. replicate (counts ! d) (of_nat d)) [Suc j..<nb]"
    by (intro map_cong) auto
  finally show ?case
    using lt fill i j
    by (subst IntegerCountingSort_loop.simps) (simp add: upt_conv_Cons)
qed

lemma filter_unat_replicate:
  "filter (\<lambda>x. unat x = d) (vec :: uint list) = replicate (cnt unat vec d) (of_nat d)"
proof -
  have "\<forall>x\<in>set (filter (\<lambda>x. unat x = d) vec). x = of_nat d"
    by auto
  then show ?thesis
    unfolding cnt_def by (metis (mono_tags, lifting) replicate_length_same)
qed

lemma IntegerCountingSort_sort_key:
  assumes "\<forall>x\<in>set vec. unat x < 2 ^ 45"
  shows "IntegerCountingSort vec = Inr (sort_key unat vec)"
proof (cases "length vec \<le> 1")
  case True
  then have "sort_key unat vec = vec"
    by (cases vec) auto
  with True show ?thesis by (simp add: IntegerCountingSort_def)
next
  case False
  then have ne: "vec \<noteq> []" by auto
  define mx where "mx = Max (set vec)"
  define nb where "nb = unat mx + 1"
  have mx: "slices_Max vec = Inr mx"
    unfolding mx_def using ne by (rule slices_Max_Max)
  have "mx \<in> set vec"
    unfolding mx_def using ne by (intro Max_in) auto
  with assms have small: "unat mx < 2 ^ 45" by auto
  then have nb63: "nb < 2 ^ 63" by (simp add: nb_def)
  have u: "unat (mx + 1) = nb"
    using small by (simp add: unat_word_ariths nb_def)
  with small have mk: "makeslice (mx + 1) (0::nat) = Inr (replicate nb 0)"
    using makeslice_fits [of "mx + 1" "0::nat"] by (simp add: nb_def)
  have le: "x \<le> mx" if "x \<in> set vec" for x
    unfolding mx_def using that by (intro Max_ge) auto
  have b: "\<forall>x\<in>set vec. Inr (unat x) = (Inr (unat x) :: nat result) \<and> unat x < nb"
    using le by (auto simp: word_le_nat_alt less_Suc_eq_le nb_def)
  let ?c1 = "map (cnt unat vec) [0..<nb]"
  have c1: "count_loop (\<lambda>x. Inr (unat x)) vec 0 (replicate nb 0) = Inr ?c1"
    using b by (intro counting_loops_steps(1)) simp
  have "sum_list ?c1 = length vec"
    using b by (simp add: sum_cnt_upto lt_cnt_all)
  then have "IntegerCountingSort_loop vec ?c1 0 0 =
         Inr (take (nat 0) vec @ concat (map (\<lambda>d. replicate (?c1 ! d) (of_nat d)) [0..<nb]))"
    using nb63 by (intro IntegerCountingSort_loop_writes) simp_all
  also have "map (\<lambda>d. replicate (?c1 ! d) (of_nat d)) [0..<nb]
           = map (\<lambda>d. filter (\<lambda>x. unat x = d) vec) [0..<nb]"
    by (intro map_cong) (simp_all add: filter_unat_replicate)
  finally have "IntegerCountingSort_loop vec ?c1 0 0 = Inr (bconcat unat nb vec)"
    by (simp add: bconcat_def)
  moreover have "bconcat unat nb vec = sort_key unat vec"
    using b by (intro bconcat_sort_key) simp
  ultimately show ?thesis
    using False mx mk c1 by (simp add: IntegerCountingSort_def)
qed

lemma unat_pow10: "k \<le> 19 \<Longrightarrow> unat ((10::uint) ^ k) = 10 ^ k"
proof -
  assume "k \<le> 19"
  then have "(10::nat) ^ k \<le> 10 ^ 19"
    by (intro power_increasing) simp_all
  also have "\<dots> < 2 ^ 64" by simp
  finally have "(10::nat) ^ k mod 2 ^ 64 = 10 ^ k" by simp
  moreover have "(10::uint) ^ k = of_nat (10 ^ k)" by simp
  ultimately show ?thesis by (simp only: unat_of_nat) simp
qed

lemma digit_pow10: "k \<le> 19 \<Longrightarrow> digit (10 ^ k) v = (unat v div 10 ^ k) mod 10"
  by (simp add: digit_def unat_mod unat_div unat_pow10)

lemma lsd_less:
  fixes P :: nat
  assumes "ga < P" and "fa < fb"
  shows "P * fa + ga \<le> P * fb + gb"
proof -
  have "P * fa + ga \<le> P * fa + P" using assms(1) by simp
  also have "\<dots> = P * Suc fa" by simp
  also have "\<dots> \<le> P * fb" using assms(2) by (intro mult_le_mono2) simp
  finally show ?thesis by simp
qed

lemma mod_pow10_Suc:
  "(n::nat) mod 10 ^ Suc k = 10 ^ k * (n div 10 ^ k mod 10) + n mod 10 ^ k"
proof -
  have "(10::nat) ^ Suc k = 10 ^ k * 10" by simp
  then show ?thesis by (simp only: mod_mult2_eq)
qed

lemma IntRadixSort_loop_sorts:
  assumes "\<forall>x\<in>set vec. unat (val x) \<le> unat mx" and "unat mx < 10 ^ 19" and "k \<le> 19"
    and "exp = 10 ^ k" and "sorted (map (\<lambda>x. unat (val x) mod 10 ^ k) vec)"
  shows "\<exists>ys. IntRadixSort_loop val z vec mx exp = Inr ys \<and> stable_on val vec ys
            \<and> sorted (map val ys)"
  using assms(1,3-)
proof (induction "19 - k" arbitrary: k vec exp)
  case 0
  then have k: "k = 19" by simp
  with 0 have e: "unat exp = 10 ^ 19" by (simp add: unat_pow10)
  then have nz: "exp \<noteq> 0" by auto
  have "unat (mx div exp) = 0"
    using assms(2) e by (simp add: unat_div)
  then have stop: "\<not> mx div exp > 0"
    by (simp add: word_less_nat_alt)
  have "map (\<lambda>x. unat (val x) mod 10 ^ k) vec = map (\<lambda>x. unat (val x)) vec"
    using "0.prems"(1) assms(2) k by (intro map_cong) auto
  with "0.prems"(4) have "sorted (map val vec)"
    by (simp add: sorted_map_unat)
  with nz stop show ?case
    by (subst IntRadixSort_loop.simps) simp
next
  case (Suc n)
  have e: "unat exp = 10 ^ k" using Suc.prems by (simp add: unat_pow10)
  then have nz: "exp \<noteq> 0" by auto
  show ?case
  proof (cases "mx div exp > 0")
    case False
    then have "unat mx div 10 ^ k = 0"
      using e by (simp add: word_less_nat_alt unat_div)
    then have "unat mx < 10 ^ k" by (simp add: div_eq_0_iff)
    then have "map (\<lambda>x. unat (val x) mod 10 ^ k) vec = map (\<lambda>x. unat (val x)) vec"
      using Suc.prems(1) by (intro map_cong) auto
    with Suc.prems(4) have "sorted (map val vec)"
      by (simp add: sorted_map_unat)
    with nz False show ?thesis
      by (subst IntRadixSort_loop.simps) simp
  next
    case True
    let ?f = "\<lambda>x. digit exp (val x)"
    let ?vec = "sort_key ?f vec"
    have f: "digit exp v = (unat v div 10 ^ k) mod 10" for v
      using Suc.prems(2,3) by (simp add: digit_pow10)
    have pass: "radixIntCountSort_on val z vec exp = Inr ?vec"
      using nz by (rule radixIntCountSort_on_sort_key)
    have "sorted (map (\<lambda>x. unat (val x) mod 10 ^ Suc k) ?vec)"
    proof (rule sorted_sort_key_lex [where g = "\<lambda>x. unat (val x) mod 10 ^ k"])
      show "\<forall>a\<in>set vec. \<forall>b\<in>set vec. ?f a < ?f b
              \<longrightarrow> unat (val a) mod 10 ^ Suc k \<le> unat (val b) mod 10 ^ Suc k"
        by (simp only: f mod_pow10_Suc) (auto intro!: lsd_less)
      show "\<forall>a\<in>set vec. \<forall>b\<in>set vec. ?f a = ?f b \<and> unat (val a) mod 10 ^ k \<le> unat (val b) mod 10 ^ k
              \<longrightarrow> unat (val a) mod 10 ^ Suc k \<le> unat (val b) mod 10 ^ Suc k"
        by (simp only: f mod_pow10_Suc) auto
      show "sorted (map (\<lambda>x. unat (val x) mod 10 ^ k) vec)"
        by (rule Suc.prems(4))
    qed
    moreover have "n = 19 - Suc k" "Suc k \<le> 19" "exp * 10 = 10 ^ Suc k"
      using Suc.hyps(2) Suc.prems(3) by simp_all
    moreover have "\<forall>x\<in>set ?vec. unat (val x) \<le> unat mx"
      using Suc.prems(1) by simp
    ultimately obtain ys where ys: "IntRadixSort_loop val z ?vec mx (exp * 10) = Inr ys"
        "stable_on val ?vec ys" "sorted (map val ys)"
      using Suc.hyps(1) [of "Suc k" ?vec "exp * 10"] by blast
    have "IntRadixSort_loop val z vec mx exp = Inr ys"
      using nz True pass ys(1) by (subst IntRadixSort_loop.simps) simp
    moreover have "stable_on val vec ys"
      using stable_on_sort_key [of val vec "digit exp"] ys(2) by (rule stable_on_trans)
    ultimately show ?thesis using ys(3) by blast
  qed
qed

lemma IntRadixSort_on_sorts:
  assumes "\<forall>x\<in>set vec. unat (val x) < 10 ^ 19"
  shows "\<exists>ys. IntRadixSort_on val z vec = Inr ys \<and> stable_on val vec ys \<and> sorted (map val ys)"
proof (cases "length vec \<le> 1")
  case True
  then have "sorted (map val vec)" by (cases vec) auto
  with True show ?thesis by (simp add: IntRadixSort_on_def)
next
  case False
  then have ne: "map val vec \<noteq> []" by auto
  define mx where "mx = Max (set (map val vec))"
  have mx: "slices_Max (map val vec) = Inr mx"
    unfolding mx_def using ne by (rule slices_Max_Max)
  have "mx \<in> set (map val vec)"
    unfolding mx_def using ne by (intro Max_in) auto
  with assms have small: "unat mx < 10 ^ 19" by auto
  have le: "\<forall>x\<in>set vec. unat (val x) \<le> unat mx"
    unfolding mx_def by (auto simp flip: word_le_nat_alt)
  have "sorted (map (\<lambda>x. unat (val x) mod 10 ^ 0) vec)"
    by (simp add: map_replicate_const)
  from IntRadixSort_loop_sorts [OF le small _ _ this, of 1 z]
  show ?thesis
    using False mx by (simp add: IntRadixSort_on_def)
qed

lemma IntRadixSort_loop_max_uint:
  "IntRadixSort_loop val z vec (- 1) exp = Inl DivideByZero"
proof (induction val z vec "- 1 :: uint" exp rule: IntRadixSort_loop.induct)
  case (1 val z vec exp)
  show ?case
  proof (cases "exp = 0")
    case True
    then show ?thesis by (subst IntRadixSort_loop.simps) simp
  next
    case False
    then have "0 < unat exp" by (simp add: unat_gt_0)
    moreover have "unat exp \<le> unat (- 1 :: uint)"
      by (simp flip: word_le_nat_alt)
    ultimately have "0 < unat (- 1 :: uint) div unat exp"
      by (simp add: div_greater_zero_iff)
    then have pos: "(- 1 :: uint) div exp > 0"
      by (simp add: word_less_nat_alt unat_div)
    have pass: "radixIntCountSort_on val z vec exp = Inr (sort_key (\<lambda>x. digit exp (val x)) vec)"
      using False by (rule radixIntCountSort_on_sort_key)
    from "1.hyps" [OF False pos pass]
    show ?thesis
      using False pos pass by (subst IntRadixSort_loop.simps) simp
  qed
qed

lemma IntRadixSort_on_max_uint:
  assumes "2 \<le> length vec" and "- 1 \<in> set (map val vec)"
  shows "IntRadixSort_on val z vec = Inl DivideByZero"
proof -
  have ne: "map val vec \<noteq> []" using assms(1) by auto
  have "Max (set (map val vec)) = - 1"
    using assms(2) by (intro Max_eqI) auto
  with slices_Max_Max [OF ne] have "slices_Max (map val vec) = Inr (- 1)" by simp
  then show ?thesis
    using assms(1) by (simp add: IntRadixSort_on_def IntRadixSort_loop_max_uint)
qed

text \<open>
  Claim C6: every exported algorithm returns on every input; in particular the digit loops
  \<^verbatim>\<open>for max/exp > 0 { ...; exp *= 10 }\<close> of the two radix sorts end under fixed-width
  \<^verbatim>\<open>uint\<close> arithmetic. The loops do end, but not always by returning: when the largest
  element is the largest \<^verbatim>\<open>uint\<close>, the condition \<open>max / exp > 0\<close> holds for every non-zero
  \<open>exp\<close>, the product \<open>exp * 10\<close> wraps, and after 64 passes \<open>exp\<close> is \<open>10^64 mod 2^64 = 0\<close>:
  the next evaluation of \<open>max / exp\<close> is a division by zero.
\<close>

theorem radix_loop_divides_by_zero:
  "IntRadixSort [0, 18446744073709551615] = Inl DivideByZero
   \<and> LessEfficientRadixSort [0, 18446744073709551615] = Inl DivideByZero"
proof -
  have m: "(18446744073709551615 :: uint) = - 1" by simp
  have "IntRadixSort_on (\<lambda>v. v) 0 [0, - 1] = Inl DivideByZero"
    by (rule IntRadixSort_on_max_uint) simp_all
  moreover have "LessEfficientRadixSort [0, - 1] = IntRadixSort_on (\<lambda>v. v) 0 [0, - 1]"
    by (simp add: LessEfficientRadixSort_def IntRadixSort_on_def radix_loops_equal)
  ultimately show ?thesis
    by (simp only: m IntRadixSort_def)
qed

theorem radix_loop_divides_by_zero_witness:
  "IntRadixSort [0, 18446744073709551615] = Inl DivideByZero"
  using radix_loop_divides_by_zero by simp

text \<open>
  Claim C2 says that the four integer sorts sort every slice of \<^verbatim>\<open>uint\<close>. The counting
  sorts allocate \<open>max + 1\<close> counters: for the largest \<^verbatim>\<open>uint\<close> the sum wraps to 0, the
  \<^verbatim>\<open>counts\<close> array is empty and the first \<^verbatim>\<open>counts[val]++\<close> is out of range.
\<close>

theorem counting_sort_max_uint_panics:
  "GeneralCountingSort [0, 18446744073709551615] = Inl IndexOutOfRange
   \<and> IntegerCountingSort [0, 18446744073709551615] = Inl IndexOutOfRange"
  by (simp add: GeneralCountingSort_def GeneralCountingSort_on_def IntegerCountingSort_def
      slices_Max_def makeslice_def maxAlloc_def count_loop.simps [of _ _ 0] inb_def idx_def)

text \<open>
  Claim C2, amended: \<^verbatim>\<open>GeneralCountingSort\<close> and \<^verbatim>\<open>IntegerCountingSort\<close> return a sorted
  permutation of every slice whose values are below \<open>2^45\<close> (so that \<open>max + 1\<close> is at most
  \<open>2^45\<close>, the longest \<^verbatim>\<open>[]uint\<close> that \<^verbatim>\<open>make\<close> accepts), and \<^verbatim>\<open>IntRadixSort\<close> and
  \<^verbatim>\<open>LessEfficientRadixSort\<close> of every slice whose values are below \<open>10^19\<close> (so that
  \<^verbatim>\<open>exp\<close> does not wrap before the loop ends).
\<close>

theorem integer_sorts_sort:
  assumes "\<forall>x\<in>set vec. unat x < 2 ^ 45" and "\<forall>x\<in>set nums. unat x < 10 ^ 19"
  shows "(\<exists>ys. GeneralCountingSort vec = Inr ys \<and> mset ys = mset vec \<and> sorted ys)
       \<and> (\<exists>ys. IntegerCountingSort vec = Inr ys \<and> mset ys = mset vec \<and> sorted ys)
       \<and> (\<exists>ys. IntRadixSort nums = Inr ys \<and> mset ys = mset nums \<and> sorted ys)
       \<and> (\<exists>ys. LessEfficientRadixSort nums = Inr ys \<and> mset ys = mset nums \<and> sorted ys)"
proof -
  from GeneralCountingSort_on_sorts [of vec "\<lambda>v. v" 0] assms(1)
  have 1: "\<exists>ys. GeneralCountingSort vec = Inr ys \<and> mset ys = mset vec \<and> sorted ys"
    by (auto simp: GeneralCountingSort_def dest: stable_on_mset)
  have "sorted (map (\<lambda>x. x) (sort_key unat vec))"
    using sorted_sort_key [of unat vec] by (simp only: sorted_map_unat)
  with IntegerCountingSort_sort_key [OF assms(1)]
  have 2: "\<exists>ys. IntegerCountingSort vec = Inr ys \<and> mset ys = mset vec \<and> sorted ys"
    by simp
  from IntRadixSort_on_sorts [of nums "\<lambda>v. v" 0] assms(2)
  have 3: "\<exists>ys. IntRadixSort nums = Inr ys \<and> mset ys = mset nums \<and> sorted ys"
    by (auto simp: IntRadixSort_def dest: stable_on_mset)
  have "LessEfficientRadixSort nums = IntRadixSort nums"
    by (simp add: LessEfficientRadixSort_def IntRadixSort_def IntRadixSort_on_def radix_loops_equal)
  with 1 2 3 show ?thesis by simp
qed

theorem integer_sorts_sort_witness:
  "GeneralCountingSort [3, 1, 2, 5, 4, 1] = Inr [1, 1, 2, 3, 4, 5]
   \<and> IntegerCountingSort [3, 1, 2, 5, 4, 1] = Inr [1, 1, 2, 3, 4, 5]
   \<and> IntRadixSort [170, 45, 75, 90, 802, 24, 2, 66] = Inr [2, 24, 45, 66, 75, 90, 170, 802]
   \<and> LessEfficientRadixSort [170, 45, 75, 90, 802, 24, 2, 66] = Inr [2, 24, 45, 66, 75, 90, 170, 802]"
proof -
  have s1: "sort [3, 1, 2, 5, 4, 1 :: uint] = [1, 1, 2, 3, 4, 5]"
    by (simp add: word_le_nat_alt)
  have s2: "sort [170, 45, 75, 90, 802, 24, 2, 66 :: uint] = [2, 24, 45, 66, 75, 90, 170, 802]"
    by (simp add: word_le_nat_alt)
  have r: "f xs = Inr (sort xs)" if "\<exists>ys. f xs = Inr ys \<and> mset ys = mset xs \<and> sorted ys"
    for f :: "uint list \<Rightarrow> uint list result" and xs
    using that by (auto dest: properties_for_sort)
  have "\<forall>x\<in>set [3, 1, 2, 5, 4, 1 :: uint]. unat x < 2 ^ 45"
    and "\<forall>x\<in>set [170, 45, 75, 90, 802, 24, 2, 66 :: uint]. unat x < 10 ^ 19"
    by simp_all
  from integer_sorts_sort [OF this] show ?thesis
    by (auto dest!: r simp only: s1 s2)
qed

section \<open>Comparison sorts: keys, swaps and sorted prefixes\<close>

text \<open>The comparison sorts see an element only through \<open><\<close> and \<open>\<le>\<close>. \<open>keyed k\<close> says that
  both compare the key \<open>k\<close> of an element in a linear order: the identity for a linearly
  ordered element type, \<open>key\<close> for tagged elements.\<close>

definition keyed :: "('a::ord \<Rightarrow> 'k::linorder) \<Rightarrow> bool" where
  "keyed k \<longleftrightarrow> (\<forall>x y. (x < y) = (k x < k y)) \<and> (\<forall>x y. (x \<le> y) = (k x \<le> k y))"

lemma keyed_id: "keyed (\<lambda>x :: 'a::linorder. x)"
  by (simp add: keyed_def)

lemma keyed_key: "keyed (key :: 'a::linorder tagged \<Rightarrow> 'a)"
  by (simp add: keyed_def less_tagged_def less_eq_tagged_def)

lemma keyed_less: "keyed k \<Longrightarrow> (x < y) = (k x < k y)"
  by (simp add: keyed_def)

lemma keyed_le: "keyed k \<Longrightarrow> (x \<le> y) = (k x \<le> k y)"
  by (simp add: keyed_def)

text \<open>Sortedness of a prefix, by positions.\<close>

definition sorted_to :: "('a \<Rightarrow> 'k::linorder) \<Rightarrow> 'a list \<Rightarrow> nat \<Rightarrow> bool" where
  "sorted_to k vec n \<longleftrightarrow> (\<forall>p q. p \<le> q \<and> q < n \<longrightarrow> k (vec ! p) \<le> k (vec ! q))"

lemma sorted_to_length: "sorted_to k vec (length vec) = sorted (map k vec)"
  by (auto simp: sorted_to_def sorted_iff_nth_mono)

lemma sorted_to_short [simp]: "n \<le> 1 \<Longrightarrow> sorted_to k vec n"
proof -
  assume "n \<le> 1"
  then have "p = q" if "p \<le> q" "q < n" for p q :: nat
    using that by simp
  then show ?thesis
    by (auto simp: sorted_to_def)
qed

text \<open>Swaps.\<close>

lemma swap_nth:
  assumes "inb vec i" and "inb vec j" and "n < length vec"
  shows "swap vec i j ! n = (if n = nat j then vec ! nat i else if n = nat i then vec ! nat j else vec ! n)"
  using assms by (auto simp: swap_def upd_def idx_def inb_def nth_list_update)

lemma mset_swap' [simp]: "inb vec i \<Longrightarrow> inb vec j \<Longrightarrow> mset (swap vec i j) = mset vec"
proof -
  assume "inb vec i" and "inb vec j"
  then have "nat i < length vec" "nat j < length vec"
    by (auto simp: inb_def)
  then have "mset (vec[nat i := vec ! nat j, nat j := vec ! nat i]) = mset vec"
    by (rule mset_swap [rotated])
  then show ?thesis
    by (simp add: swap_def upd_def idx_def)
qed

lemma set_swap [simp]: "inb vec i \<Longrightarrow> inb vec j \<Longrightarrow> set (swap vec i j) = set vec"
  by (metis mset_swap' set_mset_mset)

lemma swap_adjacent:
  assumes "Suc j < length vec"
  shows "swap vec (int j) (int j + 1) = take j vec @ vec ! Suc j # vec ! j # drop (Suc (Suc j)) vec"
proof -
  have "vec = take j vec @ vec ! j # vec ! Suc j # drop (Suc (Suc j)) vec"
    using assms by (simp add: Cons_nth_drop_Suc Suc_lessD id_take_nth_drop [symmetric])
  then obtain a b A C where v: "vec = A @ a # b # C" "length A = j" "a = vec ! j" "b = vec ! Suc j"
      "A = take j vec" "C = drop (Suc (Suc j)) vec"
    using assms by (metis length_take min.absorb2 Suc_lessD less_imp_le)
  have "swap (A @ a # b # C) (int (length A)) (int (length A) + 1) = A @ b # a # C"
    by (simp add: swap_def upd_def idx_def nat_add_distrib nth_append list_update_append)
  with v show ?thesis by metis
qed

lemma stable_on_swap_adjacent:
  assumes "Suc j < length vec" and "k (vec ! j) \<noteq> k (vec ! Suc j)"
  shows "stable_on k vec (swap vec (int j) (int j + 1))"
proof -
  have v: "vec = take j vec @ vec ! j # vec ! Suc j # drop (Suc (Suc j)) vec"
    using assms(1) by (simp add: Cons_nth_drop_Suc Suc_lessD id_take_nth_drop [symmetric])
  have "filter (\<lambda>x. k x = c) (take j vec @ vec ! Suc j # vec ! j # drop (Suc (Suc j)) vec)
      = filter (\<lambda>x. k x = c) (take j vec @ vec ! j # vec ! Suc j # drop (Suc (Suc j)) vec)" for c
    using assms(2) by auto
  then show ?thesis
    unfolding stable_on_def swap_adjacent [OF assms(1)] using v by metis
qed

lemma swap_commute: "swap vec i j = swap vec j i"
  by (cases "nat i = nat j") (auto simp: swap_def upd_def idx_def list_update_swap)

lemma drop_swap: "inb vec i \<Longrightarrow> inb vec j \<Longrightarrow> nat i < n \<Longrightarrow> nat j < n \<Longrightarrow> drop n (swap vec i j) = drop n vec"
  by (simp add: swap_def upd_def)

lemma take_swap: "n \<le> nat i \<Longrightarrow> n \<le> nat j \<Longrightarrow> take n (swap vec i j) = take n vec"
  by (simp add: swap_def upd_def)

section \<open>InsertionSort\<close>

lemma InsertionSort_inner_inserts:
  assumes "keyed k" and "j \<le> i" and "i < length vec"
    and "\<forall>p q. p \<le> q \<and> q \<le> i \<and> p \<noteq> j \<and> q \<noteq> j \<longrightarrow> k (vec ! p) \<le> k (vec ! q)"
    and "\<forall>q. j < q \<and> q \<le> i \<longrightarrow> k (vec ! j) < k (vec ! q)"
  shows "\<exists>vec'. InsertionSort_inner vec (int j) = Inr vec' \<and> stable_on k vec vec'
           \<and> sorted_to k vec' (Suc i) \<and> drop (Suc i) vec' = drop (Suc i) vec"
  using assms(2-)
proof (induction j arbitrary: vec)
  case 0
  have "sorted_to k vec (Suc i)"
    unfolding sorted_to_def
  proof (intro allI impI)
    fix p q assume pq: "p \<le> q \<and> q < Suc i"
    show "k (vec ! p) \<le> k (vec ! q)"
    proof (cases "p = 0")
      case True
      then show ?thesis using "0.prems"(4) pq by (cases "q = 0") (auto simp: less_imp_le)
    next
      case False
      then show ?thesis using "0.prems"(3) pq by auto
    qed
  qed
  then show ?case
    by (subst InsertionSort_inner.simps) simp
next
  case (Suc j)
  have inb: "inb vec (int (Suc j))" "inb vec (int (Suc j) - 1)"
    using Suc.prems by (auto simp: inb_def)
  have nn: "nat (int (Suc j)) = Suc j" "nat (int (Suc j) - 1) = j"
    by auto
  show ?case
  proof (cases "k (vec ! Suc j) < k (vec ! j)")
    case False
    have "sorted_to k vec (Suc i)"
      unfolding sorted_to_def
    proof (intro allI impI)
      fix p q assume pq: "p \<le> q \<and> q < Suc i"
      consider "p = Suc j" | "p \<noteq> Suc j" "q = Suc j" | "p \<noteq> Suc j" "q \<noteq> Suc j" by blast
      then show "k (vec ! p) \<le> k (vec ! q)"
      proof cases
        case 1
        then show ?thesis using Suc.prems(4) pq by (cases "q = Suc j") (auto simp: less_imp_le)
      next
        case 2
        then have "p \<le> j" using pq by simp
        then have "k (vec ! p) \<le> k (vec ! j)"
          using Suc.prems(1,3) by (cases "p = j") auto
        with False 2 show ?thesis by simp
      next
        case 3
        then show ?thesis using Suc.prems(3) pq by auto
      qed
    qed
    with False inb show ?thesis
      by (subst InsertionSort_inner.simps) (simp add: idx_def keyed_less [OF assms(1)] nn del: of_nat_Suc)
  next
    case True
    define vec1 where "vec1 = swap vec (int (Suc j)) (int (Suc j) - 1)"
    have sw: "vec1 = swap vec (int j) (int j + 1)"
      unfolding vec1_def by (subst swap_commute) (simp add: add.commute)
    have nth: "vec1 ! n = (if n = j then vec ! Suc j else if n = Suc j then vec ! j else vec ! n)"
      if "n < length vec" for n
      unfolding vec1_def using swap_nth [OF inb that] by (auto simp: nn)
    have len1: "length vec1 = length vec"
      by (simp add: vec1_def)
    have st: "stable_on k vec vec1"
      unfolding sw using Suc.prems True by (intro stable_on_swap_adjacent) auto
    have dr: "drop (Suc i) vec1 = drop (Suc i) vec"
      unfolding vec1_def using inb Suc.prems by (intro drop_swap) auto
    have "\<exists>vec'. InsertionSort_inner vec1 (int j) = Inr vec' \<and> stable_on k vec1 vec'
           \<and> sorted_to k vec' (Suc i) \<and> drop (Suc i) vec' = drop (Suc i) vec1"
    proof (rule Suc.IH)
      show "j \<le> i" using Suc.prems by simp
      show "i < length vec1" using Suc.prems len1 by simp
      show "\<forall>p q. p \<le> q \<and> q \<le> i \<and> p \<noteq> j \<and> q \<noteq> j \<longrightarrow> k (vec1 ! p) \<le> k (vec1 ! q)"
      proof (intro allI impI)
        fix p q assume pq: "p \<le> q \<and> q \<le> i \<and> p \<noteq> j \<and> q \<noteq> j"
        then have lp: "p < length vec" "q < length vec" using Suc.prems by auto
        consider "p = Suc j" | "p \<noteq> Suc j" "q = Suc j" | "p \<noteq> Suc j" "q \<noteq> Suc j" by blast
        then show "k (vec1 ! p) \<le> k (vec1 ! q)"
        proof cases
          case 1
          show ?thesis
          proof (cases "q = Suc j")
            case True
            with 1 show ?thesis by simp
          next
            case False
            with 1 pq have "k (vec ! j) \<le> k (vec ! q)"
              using Suc.prems(3) by auto
            with 1 False pq lp show ?thesis by (simp add: nth)
          qed
        next
          case 2
          with pq have "k (vec ! p) \<le> k (vec ! j)"
            using Suc.prems(3) by auto
          with 2 pq lp show ?thesis by (simp add: nth)
        next
          case 3
          with pq have "k (vec ! p) \<le> k (vec ! q)"
            using Suc.prems(3) by auto
          with 3 pq lp show ?thesis by (simp add: nth)
        qed
      qed
      show "\<forall>q. j < q \<and> q \<le> i \<longrightarrow> k (vec1 ! j) < k (vec1 ! q)"
      proof (intro allI impI)
        fix q assume q: "j < q \<and> q \<le> i"
        then have lq: "q < length vec" "j < length vec" using Suc.prems by auto
        show "k (vec1 ! j) < k (vec1 ! q)"
        proof (cases "q = Suc j")
          case True
          with lq \<open>k (vec ! Suc j) < k (vec ! j)\<close> show ?thesis by (simp add: nth)
        next
          case False
          with q have "k (vec ! Suc j) < k (vec ! q)"
            using Suc.prems(4) by auto
          with False q lq show ?thesis by (simp add: nth)
        qed
      qed
    qed
    then obtain vec' where "InsertionSort_inner vec1 (int j) = Inr vec'" "stable_on k vec1 vec'"
        "sorted_to k vec' (Suc i)" "drop (Suc i) vec' = drop (Suc i) vec1"
      by blast
    moreover have "InsertionSort_inner vec (int (Suc j)) = InsertionSort_inner vec1 (int j)"
    proof -
      have ij: "int (Suc j) - 1 = int j" by simp
      show ?thesis
        unfolding vec1_def using True inb by (subst InsertionSort_inner.simps)
          (simp add: idx_def keyed_less [OF assms(1)] nn ij del: of_nat_Suc)
    qed
    ultimately show ?thesis
      using st dr by (auto intro: stable_on_trans)
  qed
qed

lemma sorted_to_drop_eq:
  "sorted_to k vec n \<Longrightarrow> take n vec' = take n vec \<Longrightarrow> sorted_to k vec' n"
  unfolding sorted_to_def by (metis nth_take order_le_less_trans)

lemma InsertionSort_outer_sorts:
  assumes "keyed k" and "1 \<le> i" and "i \<le> length vec" and "sorted_to k vec i"
  shows "\<exists>vec'. InsertionSort_outer vec (int i) = Inr vec' \<and> stable_on k vec vec'
           \<and> sorted (map k vec')"
  using assms(2-)
proof (induction "length vec - i" arbitrary: i vec)
  case 0
  then have "i = length vec" by simp
  with 0 show ?case
    by (subst InsertionSort_outer.simps) (simp add: sorted_to_length)
next
  case (Suc n)
  then have i: "i < length vec" by simp
  have "\<exists>vec'. InsertionSort_inner vec (int i) = Inr vec' \<and> stable_on k vec vec'
           \<and> sorted_to k vec' (Suc i) \<and> drop (Suc i) vec' = drop (Suc i) vec"
  proof (rule InsertionSort_inner_inserts [OF assms(1) order_refl i])
    show "\<forall>p q. p \<le> q \<and> q \<le> i \<and> p \<noteq> i \<and> q \<noteq> i \<longrightarrow> k (vec ! p) \<le> k (vec ! q)"
      using Suc.prems(3) by (auto simp: sorted_to_def)
    show "\<forall>q. i < q \<and> q \<le> i \<longrightarrow> k (vec ! i) < k (vec ! q)"
      by auto
  qed
  then obtain vec1 where v1: "InsertionSort_inner vec (int i) = Inr vec1" "stable_on k vec vec1"
      "sorted_to k vec1 (Suc i)"
    by blast
  have l1: "length vec1 = length vec"
    using v1(2) by (rule stable_on_length)
  have "\<exists>vec'. InsertionSort_outer vec1 (int (Suc i)) = Inr vec' \<and> stable_on k vec1 vec'
           \<and> sorted (map k vec')"
    using Suc.hyps(2) i l1 v1(3) by (intro Suc.hyps(1)) auto
  then obtain vec2 where "InsertionSort_outer vec1 (int (Suc i)) = Inr vec2"
      "stable_on k vec1 vec2" "sorted (map k vec2)"
    by blast
  moreover have "InsertionSort_outer vec (int i) = InsertionSort_outer vec1 (int (Suc i))"
    using i v1(1) by (subst InsertionSort_outer.simps) (simp add: add.commute)
  ultimately show ?case
    using v1(2) by (auto intro: stable_on_trans)
qed

lemma InsertionSort_sorts:
  assumes "keyed k"
  shows "\<exists>vec'. InsertionSort vec = Inr vec' \<and> stable_on k vec vec' \<and> sorted (map k vec')"
proof (cases "length vec \<le> 1")
  case True
  then have "sorted (map k vec)" by (cases vec) auto
  with True show ?thesis
    by (simp add: InsertionSort_def InsertionSort_outer.simps)
next
  case False
  then show ?thesis
    using InsertionSort_outer_sorts [OF assms, of 1 vec] by (simp add: InsertionSort_def)
qed

lemma mset_take_of_drop:
  assumes "mset ys = mset xs" and "drop n ys = drop n xs"
  shows "mset (take n ys) = mset (take n xs)"
proof -
  have "mset (take n ys) + mset (drop n ys) = mset (take n xs) + mset (drop n xs)"
    using assms(1) by (simp flip: mset_append)
  with assms(2) show ?thesis by simp
qed

lemma nth_in_take_perm:
  assumes "mset (take n ys) = mset (take n xs)" and "p < n" and "p < length ys"
  obtains p' where "p' < n" and "p' < length xs" and "ys ! p = xs ! p'"
proof -
  have "ys ! p \<in> set (take n ys)"
    using assms(2,3) by (metis in_set_conv_nth length_take min_less_iff_conj nth_take)
  then have "ys ! p \<in> set (take n xs)"
    using assms(1) by (metis mset_eq_setD)
  then obtain p' where "p' < length (take n xs)" "take n xs ! p' = ys ! p"
    by (auto simp: in_set_conv_nth)
  then show ?thesis
    using that [of p'] by simp
qed

section \<open>BubbleSort\<close>

lemma BubbleSort_inner_bubbles:
  assumes "keyed k" and "0 \<le> i" and "int m = len vec - 1 - i" and "j \<le> m"
    and "\<forall>p<j. k (vec ! p) \<le> k (vec ! j)"
    and "\<not> swapped \<longrightarrow> sorted_to k vec (Suc j)"
  shows "\<exists>vec' sw. BubbleSort_inner vec i (int j) swapped = Inr (vec', sw) \<and> stable_on k vec vec'
           \<and> (\<forall>p<m. k (vec' ! p) \<le> k (vec' ! m)) \<and> drop (Suc m) vec' = drop (Suc m) vec
           \<and> (\<not> sw \<longrightarrow> sorted_to k vec' (Suc m))"
  using assms(3-)
proof (induction "m - j" arbitrary: j vec swapped)
  case 0
  then have "j = m" by simp
  with 0 show ?case
    by (subst BubbleSort_inner.simps) auto
next
  case (Suc d)
  then have j: "j < m" "Suc j < length vec" using assms(2) by auto
  have inb: "inb vec (int j)" "inb vec (int j + 1)"
    using j by (auto simp: inb_def)
  have cond: "int j < len vec - 1 - i" using j Suc.prems(1) by simp
  show ?case
  proof (cases "k (vec ! Suc j) < k (vec ! j)")
    case True
    define vec1 where "vec1 = swap vec (int j) (int j + 1)"
    have nth: "vec1 ! n = (if n = Suc j then vec ! j else if n = j then vec ! Suc j else vec ! n)"
      if "n < length vec" for n
      unfolding vec1_def using swap_nth [OF inb that] by (auto simp: nat_add_distrib)
    have len1: "length vec1 = length vec" by (simp add: vec1_def)
    have st: "stable_on k vec vec1"
      unfolding vec1_def using j True by (intro stable_on_swap_adjacent) auto
    have dr: "drop (Suc m) vec1 = drop (Suc m) vec"
      unfolding vec1_def using inb j by (intro drop_swap) (auto simp: nat_add_distrib)
    have "\<exists>vec' sw. BubbleSort_inner vec1 i (int (Suc j)) True = Inr (vec', sw) \<and> stable_on k vec1 vec'
           \<and> (\<forall>p<m. k (vec' ! p) \<le> k (vec' ! m)) \<and> drop (Suc m) vec' = drop (Suc m) vec1
           \<and> (\<not> sw \<longrightarrow> sorted_to k vec' (Suc m))"
    proof (rule Suc.hyps(1))
      show "d = m - Suc j" using Suc.hyps(2) by simp
      show "int m = len vec1 - 1 - i" using Suc.prems(1) len1 by simp
      show "Suc j \<le> m" using j by simp
      show "\<forall>p<Suc j. k (vec1 ! p) \<le> k (vec1 ! Suc j)"
      proof (intro allI impI)
        fix p assume "p < Suc j"
        then show "k (vec1 ! p) \<le> k (vec1 ! Suc j)"
          using j True Suc.prems(3) by (cases "p = j") (auto simp: nth less_imp_le)
      qed
      show "\<not> True \<longrightarrow> sorted_to k vec1 (Suc (Suc j))" by simp
    qed
    then obtain vec' sw where "BubbleSort_inner vec1 i (int (Suc j)) True = Inr (vec', sw)"
        "stable_on k vec1 vec'" "\<forall>p<m. k (vec' ! p) \<le> k (vec' ! m)"
        "drop (Suc m) vec' = drop (Suc m) vec1" "\<not> sw \<longrightarrow> sorted_to k vec' (Suc m)"
      by blast
    moreover have "BubbleSort_inner vec i (int j) swapped = BubbleSort_inner vec1 i (int (Suc j)) True"
      unfolding vec1_def using True inb cond
      by (subst BubbleSort_inner.simps)
         (simp add: idx_def keyed_less [OF assms(1)] nat_add_distrib add.commute)
    ultimately show ?thesis
      using st dr by (auto intro: stable_on_trans)
  next
    case False
    have "\<exists>vec' sw. BubbleSort_inner vec i (int (Suc j)) swapped = Inr (vec', sw) \<and> stable_on k vec vec'
           \<and> (\<forall>p<m. k (vec' ! p) \<le> k (vec' ! m)) \<and> drop (Suc m) vec' = drop (Suc m) vec
           \<and> (\<not> sw \<longrightarrow> sorted_to k vec' (Suc m))"
    proof (rule Suc.hyps(1))
      show "d = m - Suc j" using Suc.hyps(2) by simp
      show "int m = len vec - 1 - i" by (rule Suc.prems(1))
      show "Suc j \<le> m" using j by simp
      show mx: "\<forall>p<Suc j. k (vec ! p) \<le> k (vec ! Suc j)"
      proof (intro allI impI)
        fix p assume "p < Suc j"
        then have "k (vec ! p) \<le> k (vec ! j)"
          using Suc.prems(3) by (cases "p = j") auto
        with False show "k (vec ! p) \<le> k (vec ! Suc j)" by simp
      qed
      show "\<not> swapped \<longrightarrow> sorted_to k vec (Suc (Suc j))"
      proof
        assume "\<not> swapped"
        with Suc.prems(4) have s: "sorted_to k vec (Suc j)" by simp
        show "sorted_to k vec (Suc (Suc j))"
          unfolding sorted_to_def
        proof (intro allI impI)
          fix p q assume pq: "p \<le> q \<and> q < Suc (Suc j)"
          show "k (vec ! p) \<le> k (vec ! q)"
          proof (cases "q = Suc j")
            case True
            with pq mx show ?thesis by (cases "p = Suc j") auto
          next
            case False
            with pq s show ?thesis by (auto simp: sorted_to_def)
          qed
        qed
      qed
    qed
    moreover have "BubbleSort_inner vec i (int j) swapped = BubbleSort_inner vec i (int (Suc j)) swapped"
      using False inb cond
      by (subst BubbleSort_inner.simps)
         (simp add: idx_def keyed_less [OF assms(1)] nat_add_distrib add.commute)
    ultimately show ?thesis by simp
  qed
qed

lemma nth_of_drop_eq:
  assumes "drop n ys = drop n xs" and "length ys = length xs" and "n \<le> q" and "q < length xs"
  shows "ys ! q = xs ! q"
proof -
  have "ys ! (n + (q - n)) = drop n ys ! (q - n)"
    using assms(2-4) by (intro nth_drop [symmetric]) simp
  also have "\<dots> = xs ! (n + (q - n))"
    unfolding assms(1) using assms(3,4) by (intro nth_drop) simp
  finally show ?thesis using assms(3) by simp
qed

definition bubbled :: "('a \<Rightarrow> 'k::linorder) \<Rightarrow> 'a list \<Rightarrow> nat \<Rightarrow> bool" where
  "bubbled k vec i \<longleftrightarrow>
     (\<forall>p q. p \<le> q \<and> length vec - i \<le> q \<and> q < length vec \<longrightarrow> k (vec ! p) \<le> k (vec ! q))"

lemma BubbleSort_outer_sorts:
  assumes "keyed k" and "bubbled k vec i"
  shows "\<exists>vec'. BubbleSort_outer vec (int i) = Inr vec' \<and> stable_on k vec vec'
           \<and> sorted (map k vec')"
  using assms(2)
proof (induction "length vec - i" arbitrary: i vec)
  case 0
  have "sorted_to k vec (length vec)"
    unfolding sorted_to_def
  proof (intro allI impI)
    fix p q assume "p \<le> q \<and> q < length vec"
    then show "k (vec ! p) \<le> k (vec ! q)"
      using 0 by (auto simp: bubbled_def)
  qed
  with 0 show ?case
    by (subst BubbleSort_outer.simps) (simp add: sorted_to_length)
next
  case (Suc d)
  show ?case
  proof (cases "int i < len vec - 1")
    case False
    with Suc.hyps(2) have i: "Suc i = length vec" by auto
    have "sorted_to k vec (length vec)"
      unfolding sorted_to_def
    proof (intro allI impI)
      fix p q assume pq: "p \<le> q \<and> q < length vec"
      show "k (vec ! p) \<le> k (vec ! q)"
      proof (cases "q = 0")
        case True
        with pq show ?thesis by simp
      next
        case False
        with pq i Suc.prems show ?thesis by (auto simp: bubbled_def)
      qed
    qed
    with False show ?thesis
      by (subst BubbleSort_outer.simps) (simp add: sorted_to_length)
  next
    case True
    define m where "m = length vec - 1 - i"
    have m: "int m = len vec - 1 - int i" "Suc m < length vec + 1" "length vec - i = Suc m"
        "length vec - Suc i = m"
      using True by (auto simp: m_def)
    have "\<exists>vec' sw. BubbleSort_inner vec (int i) (int 0) False = Inr (vec', sw) \<and> stable_on k vec vec'
           \<and> (\<forall>p<m. k (vec' ! p) \<le> k (vec' ! m)) \<and> drop (Suc m) vec' = drop (Suc m) vec
           \<and> (\<not> sw \<longrightarrow> sorted_to k vec' (Suc m))"
      using m(1) by (intro BubbleSort_inner_bubbles [OF assms(1)]) auto
    then obtain vec1 sw where v1: "BubbleSort_inner vec (int i) 0 False = Inr (vec1, sw)"
        "stable_on k vec vec1" "\<forall>p<m. k (vec1 ! p) \<le> k (vec1 ! m)"
        "drop (Suc m) vec1 = drop (Suc m) vec" "\<not> sw \<longrightarrow> sorted_to k vec1 (Suc m)"
      by auto
    have len1: "length vec1 = length vec"
      using v1(2) by (rule stable_on_length)
    have tk: "mset (take (Suc m) vec1) = mset (take (Suc m) vec)"
      using stable_on_mset [OF v1(2)] v1(4) by (rule mset_take_of_drop)
    have b1: "bubbled k vec1 (Suc i)"
      unfolding bubbled_def
    proof (intro allI impI)
      fix p q assume pq: "p \<le> q \<and> length vec1 - Suc i \<le> q \<and> q < length vec1"
      then have q: "m \<le> q" "q < length vec" using len1 m by auto
      show "k (vec1 ! p) \<le> k (vec1 ! q)"
      proof (cases "q = m")
        case True
        with pq v1(3) show ?thesis by (cases "p = m") auto
      next
        case False
        with q have qm: "Suc m \<le> q" by simp
        then have vq: "vec1 ! q = vec ! q"
          using v1(4) q len1 by (intro nth_of_drop_eq [where n = "Suc m"]) auto
        show ?thesis
        proof (cases "p \<le> m")
          case True
          then have "p < Suc m" "p < length vec1" using q qm len1 by auto
          from nth_in_take_perm [OF tk this]
          obtain p' where p': "p' < Suc m" "p' < length vec" "vec1 ! p = vec ! p'" .
          then have "k (vec ! p') \<le> k (vec ! q)"
            using Suc.prems qm q m by (auto simp: bubbled_def)
          with p' vq show ?thesis by simp
        next
          case False
          then have "vec1 ! p = vec ! p"
            using v1(4) pq len1 by (intro nth_of_drop_eq [where n = "Suc m"]) auto
          moreover have "k (vec ! p) \<le> k (vec ! q)"
            using Suc.prems pq qm q m by (auto simp: bubbled_def)
          ultimately show ?thesis using vq by simp
        qed
      qed
    qed
    show ?thesis
    proof (cases sw)
      case False
      with v1(5) have s: "sorted_to k vec1 (Suc m)" by simp
      have "sorted_to k vec1 (length vec1)"
        unfolding sorted_to_def
      proof (intro allI impI)
        fix p q assume pq: "p \<le> q \<and> q < length vec1"
        show "k (vec1 ! p) \<le> k (vec1 ! q)"
        proof (cases "q < Suc m")
          case True
          with pq s show ?thesis by (auto simp: sorted_to_def)
        next
          case False
          with pq b1 m len1 show ?thesis by (auto simp: bubbled_def)
        qed
      qed
      then have "sorted (map k vec1)" by (simp add: sorted_to_length)
      moreover have "BubbleSort_outer vec (int i) = Inr vec1"
        using True v1(1) False by (subst BubbleSort_outer.simps) simp
      ultimately show ?thesis using v1(2) by blast
    next
      case sw: True
      have "\<exists>vec'. BubbleSort_outer vec1 (int (Suc i)) = Inr vec' \<and> stable_on k vec1 vec'
           \<and> sorted (map k vec')"
        using Suc.hyps(2) len1 b1 by (intro Suc.hyps(1)) auto
      then obtain vec2 where "BubbleSort_outer vec1 (int (Suc i)) = Inr vec2"
          "stable_on k vec1 vec2" "sorted (map k vec2)"
        by blast
      moreover have "BubbleSort_outer vec (int i) = BubbleSort_outer vec1 (int (Suc i))"
        using True v1(1) sw by (subst BubbleSort_outer.simps) (simp add: add.commute)
      ultimately show ?thesis
        using v1(2) by (auto intro: stable_on_trans)
    qed
  qed
qed

lemma BubbleSort_sorts:
  assumes "keyed k"
  shows "\<exists>vec'. BubbleSort vec = Inr vec' \<and> stable_on k vec vec' \<and> sorted (map k vec')"
proof -
  have "bubbled k vec 0" by (auto simp: bubbled_def)
  from BubbleSort_outer_sorts [OF assms this] show ?thesis
    by (simp add: BubbleSort_def)
qed

section \<open>MergeSort\<close>

text \<open>The merge of two lists that the loops of \<^verbatim>\<open>merge\<close> compute, taking the left head on a tie.\<close>

fun fmerge :: "'a::ord list \<Rightarrow> 'a list \<Rightarrow> 'a list" where
  "fmerge [] ys = ys"
| "fmerge xs [] = xs"
| "fmerge (x # xs) (y # ys) = (if x \<le> y then x # fmerge xs (y # ys) else y # fmerge (x # xs) ys)"

lemma fmerge_Nil2 [simp]: "fmerge xs [] = xs"
  by (cases xs) auto

lemma mset_fmerge: "mset (fmerge xs ys) = mset xs + mset ys"
  by (induction xs ys rule: fmerge.induct) auto

lemma set_fmerge: "set (fmerge xs ys) = set xs \<union> set ys"
  by (induction xs ys rule: fmerge.induct) auto

lemma sorted_fmerge:
  assumes "keyed k"
  shows "sorted (map k xs) \<Longrightarrow> sorted (map k ys) \<Longrightarrow> sorted (map k (fmerge xs ys))"
proof (induction xs ys rule: fmerge.induct)
  case (3 x xs y ys)
  then show ?case
    by (auto simp: set_fmerge keyed_le [OF assms])
qed auto

lemma filter_fmerge:
  assumes "keyed k"
  shows "sorted (map k xs) \<Longrightarrow> sorted (map k ys) \<Longrightarrow>
         filter (\<lambda>x. k x = c) (fmerge xs ys) = filter (\<lambda>x. k x = c) xs @ filter (\<lambda>x. k x = c) ys"
proof (induction xs ys rule: fmerge.induct)
  case (3 x xs y ys)
  show ?case
  proof (cases "x \<le> y")
    case True
    with 3 show ?thesis by auto
  next
    case False
    then have lt: "k y < k x" by (simp add: keyed_le [OF assms])
    have "filter (\<lambda>x. k x = c) (x # xs) = []" if "k y = c"
      using that lt "3.prems"(1) by (auto simp: filter_empty_conv)
    with False 3 show ?thesis by auto
  qed
qed auto

lemma fmerge_sort_key:
  assumes "keyed k"
  shows "fmerge (sort_key k A) (sort_key k B) = sort_key k (A @ B)"
proof (rule properties_for_sort_key [symmetric])
  show "mset (fmerge (sort_key k A) (sort_key k B)) = mset (A @ B)"
    by (simp add: mset_fmerge)
  show "sorted (map k (fmerge (sort_key k A) (sort_key k B)))"
    by (intro sorted_fmerge [OF assms] sorted_sort_key)
  fix x
  have "(\<lambda>y. k x = k y) = (\<lambda>y. k y = k x)" by auto
  then show "filter (\<lambda>y. k x = k y) (fmerge (sort_key k A) (sort_key k B)) = filter (\<lambda>y. k x = k y) (A @ B)"
    by (simp add: filter_fmerge [OF assms] sort_key_stable)
qed

definition slice :: "'a list \<Rightarrow> nat \<Rightarrow> nat \<Rightarrow> 'a list" where
  "slice vec a b = take (b - a) (drop a vec)"

lemma slice_empty [simp]: "b \<le> a \<Longrightarrow> slice vec a b = []"
  by (simp add: slice_def)

lemma slice_step: "a < b \<Longrightarrow> b \<le> length vec \<Longrightarrow> slice vec a b = vec ! a # slice vec (Suc a) b"
  by (simp add: slice_def Cons_nth_drop_Suc [symmetric] take_Suc_Cons [symmetric] Suc_diff_Suc del: take_Suc_Cons)

lemma length_slice [simp]: "b \<le> length vec \<Longrightarrow> length (slice vec a b) = b - a"
  by (simp add: slice_def)

lemma merge_rest_copies:
  assumes "i \<le> Suc b" and "Suc b \<le> length vec" and "kk + (Suc b - i) \<le> length tmp"
  shows "merge_rest vec tmp (int i) (int kk) (int b) =
         Inr (take kk tmp @ slice vec i (Suc b) @ drop (kk + (Suc b - i)) tmp, int (kk + (Suc b - i)))"
  using assms
proof (induction "Suc b - i" arbitrary: i kk tmp)
  case 0
  then show ?case
    by (subst merge_rest.simps) simp
next
  case (Suc d)
  then have i: "i \<le> b" "i < length vec" "kk < length tmp" by auto
  define tmp1 where "tmp1 = upd tmp (int kk) (idx vec (int i))"
  have l1: "length tmp1 = length tmp" by (simp add: tmp1_def)
  have "merge_rest vec tmp1 (int (Suc i)) (int (Suc kk)) (int b) =
         Inr (take (Suc kk) tmp1 @ slice vec (Suc i) (Suc b) @ drop (Suc kk + (Suc b - Suc i)) tmp1,
              int (Suc kk + (Suc b - Suc i)))"
    using Suc.hyps(2) Suc.prems i l1 by (intro Suc.hyps(1)) auto
  moreover have "take (Suc kk) tmp1 = take kk tmp @ [vec ! i]"
    using i by (simp add: tmp1_def upd_def idx_def take_Suc_conv_app_nth)
  moreover have "drop (Suc kk + (Suc b - Suc i)) tmp1 = drop (kk + (Suc b - i)) tmp"
    using i by (simp add: tmp1_def upd_def Suc_diff_le)
  moreover have "slice vec i (Suc b) = vec ! i # slice vec (Suc i) (Suc b)"
    using i Suc.prems by (intro slice_step) auto
  moreover have "Suc kk + (Suc b - Suc i) = kk + (Suc b - i)"
    using i by simp
  moreover have "merge_rest vec tmp (int i) (int kk) (int b)
      = merge_rest vec tmp1 (int (Suc i)) (int (Suc kk)) (int b)"
    unfolding tmp1_def using i
    by (subst merge_rest.simps) (simp add: inb_def add.commute)
  ultimately show ?case by simp
qed

lemma merge_back_copies:
  assumes "i \<le> Suc e" and "Suc e \<le> length vec" and "Suc e \<le> length tmp"
  shows "merge_back vec tmp (int i) (int e) = Inr (take i vec @ slice tmp i (Suc e) @ drop (Suc e) vec)"
  using assms
proof (induction "Suc e - i" arbitrary: i vec)
  case 0
  then show ?case
    by (subst merge_back.simps) simp
next
  case (Suc d)
  then have i: "i \<le> e" "i < length vec" "i < length tmp" by auto
  define vec1 where "vec1 = upd vec (int i) (idx tmp (int i))"
  have l1: "length vec1 = length vec" by (simp add: vec1_def)
  have "merge_back vec1 tmp (int (Suc i)) (int e) =
         Inr (take (Suc i) vec1 @ slice tmp (Suc i) (Suc e) @ drop (Suc e) vec1)"
    using Suc.hyps(2) Suc.prems i l1 by (intro Suc.hyps(1)) auto
  moreover have "take (Suc i) vec1 = take i vec @ [tmp ! i]"
    using i by (simp add: vec1_def upd_def idx_def take_Suc_conv_app_nth)
  moreover have "drop (Suc e) vec1 = drop (Suc e) vec"
    using i by (simp add: vec1_def upd_def)
  moreover have "slice tmp i (Suc e) = tmp ! i # slice tmp (Suc i) (Suc e)"
    using i Suc.prems by (intro slice_step) auto
  moreover have "merge_back vec tmp (int i) (int e) = merge_back vec1 tmp (int (Suc i)) (int e)"
    unfolding vec1_def using i
    by (subst merge_back.simps) (simp add: inb_def add.commute)
  ultimately show ?case by simp
qed

lemma merge_fill:
  assumes "i \<le> Suc mid" and "j \<le> Suc e" and "Suc mid \<le> length vec" and "Suc e \<le> length vec"
    and "kk + (Suc mid - i) + (Suc e - j) \<le> length tmp"
  shows "then_do (merge_both vec tmp (int i) (int j) (int kk) (int mid) (int e)) (\<lambda>(tmp1, i1, j1, k1).
         then_do (merge_rest vec tmp1 i1 k1 (int mid)) (\<lambda>(tmp2, k2).
         then_do (merge_rest vec tmp2 j1 k2 (int e)) (\<lambda>(tmp3, k3). f tmp3)))
       = f (take kk tmp @ fmerge (slice vec i (Suc mid)) (slice vec j (Suc e))
              @ drop (kk + (Suc mid - i) + (Suc e - j)) tmp)"
  using assms
proof (induction "(Suc mid - i) + (Suc e - j)" arbitrary: i j kk tmp rule: less_induct)
  case less
  show ?case
  proof (cases "i \<le> mid \<and> j \<le> e")
    case False
    then have stop: "merge_both vec tmp (int i) (int j) (int kk) (int mid) (int e)
        = Inr (tmp, int i, int j, int kk)"
      by (subst merge_both.simps) auto
    show ?thesis
    proof (cases "i \<le> mid")
      case True
      with False less.prems have j: "j = Suc e" by simp
      have r1: "merge_rest vec tmp (int i) (int kk) (int mid) =
         Inr (take kk tmp @ slice vec i (Suc mid) @ drop (kk + (Suc mid - i)) tmp, int (kk + (Suc mid - i)))"
        using less.prems by (intro merge_rest_copies) auto
      have r2: "merge_rest vec tmp' (int j) k' (int e) = Inr (tmp', k')" for tmp' k'
        using j by (subst merge_rest.simps) simp
      have "slice vec j (Suc e) = []" "Suc e - j = 0" using j by simp_all
      then show ?thesis
        by (simp add: stop r1 r2)
    next
      case False
      with less.prems have i: "i = Suc mid" by simp
      have r1: "merge_rest vec tmp (int i) (int kk) (int mid) = Inr (tmp, int kk)"
        using i by (subst merge_rest.simps) simp
      have r2: "merge_rest vec tmp (int j) (int kk) (int e) =
         Inr (take kk tmp @ slice vec j (Suc e) @ drop (kk + (Suc e - j)) tmp, int (kk + (Suc e - j)))"
        using less.prems by (intro merge_rest_copies) auto
      have "slice vec i (Suc mid) = []" "Suc mid - i = 0" using i by simp_all
      then show ?thesis
        by (simp add: stop r1 r2)
    qed
  next
    case True
    then have b: "i < length vec" "j < length vec" "kk < length tmp"
      using less.prems by auto
    have inb: "inb vec (int i)" "inb vec (int j)" "inb tmp (int kk)"
      using b by (auto simp: inb_def)
    have si: "slice vec i (Suc mid) = vec ! i # slice vec (Suc i) (Suc mid)"
      using True less.prems by (intro slice_step) auto
    have sj: "slice vec j (Suc e) = vec ! j # slice vec (Suc j) (Suc e)"
      using True less.prems by (intro slice_step) auto
    show ?thesis
    proof (cases "vec ! i \<le> vec ! j")
      case le: True
      define tmp1 where "tmp1 = upd tmp (int kk) (idx vec (int i))"
      have l1: "length tmp1 = length tmp" by (simp add: tmp1_def)
      have step: "merge_both vec tmp (int i) (int j) (int kk) (int mid) (int e)
          = merge_both vec tmp1 (int (Suc i)) (int j) (int (Suc kk)) (int mid) (int e)"
        unfolding tmp1_def using True inb le
        by (subst merge_both.simps) (simp add: idx_def add.commute)
      have "then_do (merge_both vec tmp1 (int (Suc i)) (int j) (int (Suc kk)) (int mid) (int e)) (\<lambda>(tmp1, i1, j1, k1).
         then_do (merge_rest vec tmp1 i1 k1 (int mid)) (\<lambda>(tmp2, k2).
         then_do (merge_rest vec tmp2 j1 k2 (int e)) (\<lambda>(tmp3, k3). f tmp3)))
       = f (take (Suc kk) tmp1 @ fmerge (slice vec (Suc i) (Suc mid)) (slice vec j (Suc e))
              @ drop (Suc kk + (Suc mid - Suc i) + (Suc e - j)) tmp1)"
        using True less.prems l1 by (intro less.hyps) auto
      moreover have "take (Suc kk) tmp1 = take kk tmp @ [vec ! i]"
        using b by (simp add: tmp1_def upd_def idx_def take_Suc_conv_app_nth)
      moreover have "drop (Suc kk + (Suc mid - Suc i) + (Suc e - j)) tmp1
          = drop (kk + (Suc mid - i) + (Suc e - j)) tmp"
      proof -
        have ix: "Suc kk + (Suc mid - Suc i) + (Suc e - j) = kk + (Suc mid - i) + (Suc e - j)"
          using True by auto
        have "kk < kk + (Suc mid - i) + (Suc e - j)" using True by auto
        then show ?thesis
          by (simp only: ix tmp1_def upd_def nat_int drop_update_cancel)
      qed
      ultimately show ?thesis
        using le by (simp add: step si sj)
    next
      case gt: False
      define tmp1 where "tmp1 = upd tmp (int kk) (idx vec (int j))"
      have l1: "length tmp1 = length tmp" by (simp add: tmp1_def)
      have step: "merge_both vec tmp (int i) (int j) (int kk) (int mid) (int e)
          = merge_both vec tmp1 (int i) (int (Suc j)) (int (Suc kk)) (int mid) (int e)"
        unfolding tmp1_def using True inb gt
        by (subst merge_both.simps) (simp add: idx_def add.commute)
      have "then_do (merge_both vec tmp1 (int i) (int (Suc j)) (int (Suc kk)) (int mid) (int e)) (\<lambda>(tmp1, i1, j1, k1).
         then_do (merge_rest vec tmp1 i1 k1 (int mid)) (\<lambda>(tmp2, k2).
         then_do (merge_rest vec tmp2 j1 k2 (int e)) (\<lambda>(tmp3, k3). f tmp3)))
       = f (take (Suc kk) tmp1 @ fmerge (slice vec i (Suc mid)) (slice vec (Suc j) (Suc e))
              @ drop (Suc kk + (Suc mid - i) + (Suc e - Suc j)) tmp1)"
        using True less.prems l1 by (intro less.hyps) auto
      moreover have "take (Suc kk) tmp1 = take kk tmp @ [vec ! j]"
        using b by (simp add: tmp1_def upd_def idx_def take_Suc_conv_app_nth)
      moreover have "drop (Suc kk + (Suc mid - i) + (Suc e - Suc j)) tmp1
          = drop (kk + (Suc mid - i) + (Suc e - j)) tmp"
      proof -
        have ix: "Suc kk + (Suc mid - i) + (Suc e - Suc j) = kk + (Suc mid - i) + (Suc e - j)"
          using True by auto
        have "kk < kk + (Suc mid - i) + (Suc e - j)" using True by auto
        then show ?thesis
          by (simp only: ix tmp1_def upd_def nat_int drop_update_cancel)
      qed
      ultimately show ?thesis
        using gt by (simp add: step si [symmetric] sj) (simp add: si)
    qed
  qed
qed

lemma slice_frame: "slice (P @ M @ S) (length P) (length P + length M) = M"
  by (simp add: slice_def)

lemma merge_frame:
  assumes "A \<noteq> []" and "length tmp = length (P @ A @ B @ S)"
  shows "merge (P @ A @ B @ S) tmp (int (length P)) (int (length P + length A) - 1)
           (int (length P + length A + length B) - 1)
       = Inr (P @ fmerge A B @ S,
              take (length P) tmp @ fmerge A B @ drop (length P + length A + length B) tmp)"
proof -
  define vec where "vec = P @ A @ B @ S"
  define mid where "mid = length P + length A - 1"
  define e where "e = length P + length A + length B - 1"
  define M where "M = fmerge A B"
  define tmp3 where "tmp3 = take (length P) tmp @ M @ drop (length P + length A + length B) tmp"
  from assms(1) obtain a A' where A: "A = a # A'" by (cases A) auto
  have mid: "Suc mid = length P + length A" "int (length P + length A) - 1 = int mid"
    unfolding mid_def A by simp_all
  have e: "Suc e = length P + length A + length B" "int (length P + length A + length B) - 1 = int e"
    unfolding e_def A by simp_all
  have sA: "slice vec (length P) (Suc mid) = A"
    unfolding mid(1) vec_def using slice_frame [of P A "B @ S"] by simp
  have sB: "slice vec (Suc mid) (Suc e) = B"
    unfolding mid(1) e(1) vec_def using slice_frame [of "P @ A" B S] by simp
  have lM: "length M = length A + length B"
    unfolding M_def using arg_cong [OF mset_fmerge, of size A B] by simp
  have fill: "then_do (merge_both vec tmp (int (length P)) (int (Suc mid)) (int (length P)) (int mid) (int e))
         (\<lambda>(tmp1, i1, j1, k1).
         then_do (merge_rest vec tmp1 i1 k1 (int mid)) (\<lambda>(tmp2, k2).
         then_do (merge_rest vec tmp2 j1 k2 (int e)) (\<lambda>(tmp3, k3). f tmp3)))
       = f tmp3" for f :: "'a list \<Rightarrow> ('a list \<times> 'a list) result"
  proof -
    have lv: "length vec = length P + length A + length B + length S"
      by (simp add: vec_def)
    have pre: "length P \<le> Suc mid" "Suc mid \<le> Suc e" "Suc mid \<le> length vec" "Suc e \<le> length vec"
      using mid(1) e(1) lv by simp_all
    have ix: "length P + (Suc mid - length P) + (Suc e - Suc mid) = length P + length A + length B"
      using mid(1) e(1) by simp
    have "length P + (Suc mid - length P) + (Suc e - Suc mid) \<le> length tmp"
      unfolding ix using assms(2) by simp
    from merge_fill [OF pre this, of f] show ?thesis
      unfolding tmp3_def M_def by (simp only: sA sB ix)
  qed
  have "slice tmp3 (length P) (Suc e) = M"
  proof -
    have "length (take (length P) tmp) = length P" using assms(2) by simp
    then show ?thesis
      unfolding tmp3_def e(1)
      using slice_frame [of "take (length P) tmp" M "drop (length P + length A + length B) tmp"] lM
      by (simp add: add.assoc)
  qed
  moreover have "Suc e \<le> length tmp3" "Suc e \<le> length vec"
    using assms(2) e lM by (simp_all add: tmp3_def vec_def)
  ultimately have bk: "merge_back vec tmp3 (int (length P)) (int e) = Inr (P @ M @ S)"
    using merge_back_copies [of "length P" e vec tmp3] e
    by (simp add: vec_def)
  have "merge vec tmp (int (length P)) (int mid) (int e) = Inr (P @ M @ S, tmp3)"
    unfolding merge_def using fill [of "\<lambda>tmp3. then_do (merge_back vec tmp3 (int (length P)) (int e))
        (\<lambda>vec'. Inr (vec', tmp3))"] bk
    by (simp add: add.commute)
  then show ?thesis
    by (simp only: vec_def mid e M_def tmp3_def)
qed

lemma sdiv_2_nat: "int n sdiv 2 = int (n div 2)"
proof -
  have "int n sdiv 2 = int n div 2"
    by (cases "n = 0") (simp_all add: signed_divide_int_def)
  then show ?thesis by simp
qed

lemma mid_calc:
  fixes p m :: nat
  assumes "\<not> m \<le> 1"
  shows "int p + (int (p + m) - 1 - int p) sdiv 2 = int (p + ((m - 1) div 2 + 1)) - 1"
proof -
  have "int (p + m) - 1 - int p = int (m - 1)" using assms by auto
  then show ?thesis by (simp only: sdiv_2_nat)
qed

lemma mergeSortHelper_frame:
  assumes "keyed k" and "length tmp = length (P @ M @ S)"
  shows "\<exists>tmp'. mergeSortHelper (P @ M @ S) tmp (int (length P)) (int (length P + length M) - 1)
             = Inr (P @ sort_key k M @ S, tmp') \<and> length tmp' = length tmp"
  using assms(2)
proof (induction "length M" arbitrary: P M S tmp rule: less_induct)
  case less
  show ?case
  proof (cases "length M \<le> 1")
    case True
    then have "sort_key k M = M" by (cases M) auto
    with True show ?thesis
      by (subst mergeSortHelper.simps) simp
  next
    case False
    define h where "h = (length M - 1) div 2 + 1"
    define A where "A = take h M"
    define B where "B = drop h M"
    have h: "1 \<le> h" "h < length M" using False by (auto simp: h_def)
    have M: "M = A @ B" by (simp add: A_def B_def)
    have lA: "length A = h" using h by (simp add: A_def)
    have lM: "length M = length A + length B" by (simp add: A_def B_def)
    have lt: "length A < length M" "length B < length M" using h lA lM by auto
    have neA: "A \<noteq> []" using lA h by auto
    have pre: "length tmp = length (P @ A @ B @ S)"
      using less.prems lM by simp
    define start where "start = int (length P)"
    define e where "e = int (length P + length M) - 1"
    define mid where "mid = start + (e - start) sdiv 2"
    have mid: "mid = int (length P + length A) - 1"
      unfolding mid_def start_def e_def lA h_def using False by (rule mid_calc)
    have mid1: "mid + 1 = int (length (P @ sort_key k A))"
      by (simp add: mid)
    have e2: "e = int (length (P @ sort_key k A) + length B) - 1"
      by (simp add: e_def lM)
    have e3: "e = int (length P + length (sort_key k A) + length (sort_key k B)) - 1"
      by (simp add: e_def lM)
    have mid3: "mid = int (length P + length (sort_key k A)) - 1"
      by (simp add: mid)
    from less.hyps [OF lt(1) pre]
    obtain tmp1 where t1: "mergeSortHelper (P @ A @ B @ S) tmp start mid
             = Inr (P @ sort_key k A @ B @ S, tmp1)" "length tmp1 = length tmp"
      unfolding start_def mid by auto
    have "length tmp1 = length ((P @ sort_key k A) @ B @ S)"
      using t1(2) pre by simp
    from less.hyps [OF lt(2) this]
    obtain tmp2 where t2: "mergeSortHelper ((P @ sort_key k A) @ B @ S) tmp1 (mid + 1) e
             = Inr ((P @ sort_key k A) @ sort_key k B @ S, tmp2)" "length tmp2 = length tmp"
      unfolding mid1 e2 using t1(2) by auto
    have "length tmp2 = length (P @ sort_key k A @ sort_key k B @ S)"
      using t2(2) pre by simp
    moreover have "sort_key k A \<noteq> []"
      using neA by (metis length_0_conv length_sort)
    ultimately
    have mg: "merge (P @ sort_key k A @ sort_key k B @ S) tmp2 start mid e
       = Inr (P @ fmerge (sort_key k A) (sort_key k B) @ S,
              take (length P) tmp2 @ fmerge (sort_key k A) (sort_key k B)
                @ drop (length P + length (sort_key k A) + length (sort_key k B)) tmp2)"
      using merge_frame [of "sort_key k A" tmp2 P "sort_key k B" S, folded start_def mid3 e3]
      by simp
    have "length (fmerge (sort_key k A) (sort_key k B)) = length A + length B"
      using arg_cong [OF mset_fmerge, of size "sort_key k A" "sort_key k B"] by simp
    then have l3: "length (take (length P) tmp2 @ fmerge (sort_key k A) (sort_key k B)
                @ drop (length P + length (sort_key k A) + length (sort_key k B)) tmp2) = length tmp"
      using t2(2) pre by simp
    have lt': "\<not> start \<ge> e" using False by (simp add: start_def e_def)
    have fm: "fmerge (sort_key k A) (sort_key k B) = sort_key k (A @ B)"
      by (rule fmerge_sort_key [OF assms(1)])
    have "mergeSortHelper (P @ A @ B @ S) tmp start e
        = Inr (P @ sort_key k (A @ B) @ S,
               take (length P) tmp2 @ fmerge (sort_key k A) (sort_key k B)
                @ drop (length P + length (sort_key k A) + length (sort_key k B)) tmp2)"
      using lt' t1(1) t2(1) mg
      by (subst mergeSortHelper.simps) (simp add: Let_def mid_def [symmetric] fm)
    with l3 show ?thesis
      unfolding M start_def e_def by auto
  qed
qed

lemma MergeSort_sort_key:
  assumes "keyed k"
  shows "MergeSort z vec = Inr (sort_key k vec)"
proof (cases "length vec \<le> 1")
  case True
  then have "sort_key k vec = vec" by (cases vec) auto
  with True show ?thesis by (simp add: MergeSort_def)
next
  case False
  from mergeSortHelper_frame [OF assms, of "replicate (length vec) z" "[]" vec "[]"]
  obtain tmp' where "mergeSortHelper vec (replicate (length vec) z) 0 (len vec - 1)
      = Inr (sort_key k vec, tmp')"
    by auto
  with False show ?thesis by (simp add: MergeSort_def)
qed

lemma MergeSort_sorts:
  assumes "keyed k"
  shows "\<exists>vec'. MergeSort z vec = Inr vec' \<and> stable_on k vec vec' \<and> sorted (map k vec')"
  using stable_on_sort_key [of k vec "\<lambda>x. x"]
  by (simp add: MergeSort_sort_key [OF assms])

section \<open>Stability\<close>

lemma GeneralCountingSort_on_stable:
  assumes "GeneralCountingSort_on val z vec = Inr ys"
  shows "stable_on val vec ys"
proof (cases "\<forall>x\<in>set vec. unat (val x) < 2 ^ 45")
  case True
  from GeneralCountingSort_on_sorts [OF this, of z] assms show ?thesis by auto
next
  case False
  then have long: "\<not> length vec \<le> 1 \<Longrightarrow> False"
  proof -
    assume l: "\<not> length vec \<le> 1"
    then have ne: "map val vec \<noteq> []" by auto
    define mx where "mx = Max (set (map val vec))"
    have mx: "slices_Max (map val vec) = Inr mx"
      unfolding mx_def using ne by (rule slices_Max_Max)
    from False obtain x where x: "x \<in> set vec" "\<not> unat (val x) < 2 ^ 45" by auto
    have "val x \<le> mx"
      unfolding mx_def using x(1) by (intro Max_ge) auto
    with x(2) have big: "2 ^ 45 \<le> unat mx"
      by (simp add: word_le_nat_alt)
    show False
    proof (cases "mx = - 1")
      case True
      then have mk: "makeslice (mx + 1) (0::nat) = Inr []"
        using makeslice_fits [of "mx + 1" "0::nat"] by simp
      have "count_loop (\<lambda>x. Inr (unat (val x))) vec 0 [] = Inl IndexOutOfRange"
        using x(1) by (intro count_loop_panics [where kf = "\<lambda>x. unat (val x)"]) auto
      with l mx mk assms show False
        by (simp add: GeneralCountingSort_on_def)
    next
      case False
      have "unat mx \<noteq> 2 ^ 64 - 1"
      proof
        assume "unat mx = 2 ^ 64 - 1"
        then have "mx = of_nat (2 ^ 64 - 1)"
          by (metis of_nat_unat ucast_id)
        also have "\<dots> = - 1" by simp
        finally show False using False by simp
      qed
      moreover have "unat mx < 2 ^ 64" using unsigned_less [of mx] by simp
      ultimately have "unat (mx + 1) = unat mx + 1"
        by (simp add: unat_word_ariths)
      with big have "makeslice (mx + 1) (0::nat) = Inl MakeLenOutOfRange"
        by (intro makeslice_too_long) simp
      with l mx assms show False
        by (simp add: GeneralCountingSort_on_def)
    qed
  qed
  then have "length vec \<le> 1" by blast
  with assms show ?thesis
    by (simp add: GeneralCountingSort_on_def)
qed

lemma IntRadixSort_loop_stable:
  "IntRadixSort_loop val z vec mx exp = Inr ys \<Longrightarrow> stable_on val vec ys"
proof (induction val z vec mx exp rule: IntRadixSort_loop.induct)
  case (1 val z vec mx exp)
  show ?case
  proof (cases "exp = 0")
    case True
    with "1.prems" show ?thesis
      by (subst (asm) IntRadixSort_loop.simps) simp
  next
    case nz: False
    show ?thesis
    proof (cases "mx div exp > 0")
      case False
      with nz "1.prems" show ?thesis
        by (subst (asm) IntRadixSort_loop.simps) simp
    next
      case True
      have pass: "radixIntCountSort_on val z vec exp = Inr (sort_key (\<lambda>x. digit exp (val x)) vec)"
        using nz by (rule radixIntCountSort_on_sort_key)
      with nz True "1.prems"
      have "IntRadixSort_loop val z (sort_key (\<lambda>x. digit exp (val x)) vec) mx (exp * 10) = Inr ys"
        by (subst (asm) IntRadixSort_loop.simps) simp
      from "1.IH" [OF nz True pass this]
      show ?thesis
        using stable_on_sort_key [of val vec "digit exp"] by (rule stable_on_trans [rotated])
    qed
  qed
qed

lemma IntRadixSort_on_stable:
  "IntRadixSort_on val z vec = Inr ys \<Longrightarrow> stable_on val vec ys"
  by (auto simp: IntRadixSort_on_def then_do_eq_Inr split: if_splits dest: IntRadixSort_loop_stable)

lemma StringRadixSort_loop_stable:
  "StringRadixSort_loop val z vec i = Inr ys \<Longrightarrow> stable_on val vec ys"
proof (induction val z vec i rule: StringRadixSort_loop.induct)
  case (1 val z vec i)
  show ?case
  proof (cases "i \<ge> 0")
    case False
    with "1.prems" show ?thesis
      by (subst (asm) StringRadixSort_loop.simps) simp
  next
    case True
    show ?thesis
    proof (cases "\<forall>x\<in>set vec. skey (nat i) (val x) < 129")
      case False
      then have "radixStringCountSort_on val z vec i = Inl IndexOutOfRange"
        using True by (intro radixStringCountSort_on_panics) auto
      with True "1.prems" show ?thesis
        by (subst (asm) StringRadixSort_loop.simps) simp
    next
      case ok: True
      have pass: "radixStringCountSort_on val z vec i = Inr (sort_key (\<lambda>x. skey (nat i) (val x)) vec)"
        using True ok by (rule radixStringCountSort_on_sort_key)
      with True "1.prems"
      have "StringRadixSort_loop val z (sort_key (\<lambda>x. skey (nat i) (val x)) vec) (i - 1) = Inr ys"
        by (subst (asm) StringRadixSort_loop.simps) simp
      from "1.IH" [OF True pass this]
      show ?thesis
        using stable_on_sort_key [of val vec "skey (nat i)"] by (rule stable_on_trans [rotated])
    qed
  qed
qed

lemma StringRadixSort_on_stable:
  "StringRadixSort_on val z vec = Inr ys \<Longrightarrow> stable_on val vec ys"
  by (auto simp: StringRadixSort_on_def then_do_eq_Inr split: if_splits dest: StringRadixSort_loop_stable)

lemma stable_sorted_sort_key:
  assumes "stable_on k xs ys" and "sorted (map k ys)"
  shows "ys = sort_key k xs"
proof (rule properties_for_sort_key [symmetric])
  show "mset ys = mset xs" using assms(1) by (rule stable_on_mset)
  show "sorted (map k ys)" by (rule assms(2))
  fix x
  have "(\<lambda>y. k x = k y) = (\<lambda>y. k y = k x)" by auto
  then show "filter (\<lambda>y. k x = k y) ys = filter (\<lambda>y. k x = k y) xs"
    using assms(1) by (simp add: stable_on_def)
qed

text \<open>
  Claim C5: \<^verbatim>\<open>BubbleSort\<close>, \<^verbatim>\<open>InsertionSort\<close>, \<^verbatim>\<open>MergeSort\<close>, \<^verbatim>\<open>GeneralCountingSort\<close>,
  \<^verbatim>\<open>IntRadixSort\<close> and \<^verbatim>\<open>StringRadixSort\<close> are stable: run on elements that carry a tag
  beside their key and are compared (or counted) by the key alone, each leaves, for every
  key, the elements with that key in the order they had in the input (\<open>stable_on\<close>). The
  three comparison sorts return on every input; for the other three, which can panic, the
  statement is about every output they return.
\<close>

theorem stable_sorts_keep_order:
  fixes vec :: "'a::linorder tagged list" and nums :: "uint tagged list"
    and strs :: "string tagged list"
  shows "(\<exists>ys. BubbleSort vec = Inr ys \<and> stable_on key vec ys)
       \<and> (\<exists>ys. InsertionSort vec = Inr ys \<and> stable_on key vec ys)
       \<and> (\<exists>ys. MergeSort z vec = Inr ys \<and> stable_on key vec ys)
       \<and> (\<forall>ys. GeneralCountingSort_on key zn nums = Inr ys \<longrightarrow> stable_on key nums ys)
       \<and> (\<forall>ys. IntRadixSort_on key zn nums = Inr ys \<longrightarrow> stable_on key nums ys)
       \<and> (\<forall>ys. StringRadixSort_on key zs strs = Inr ys \<longrightarrow> stable_on key strs ys)"
proof -
  have k: "keyed (key :: 'a tagged \<Rightarrow> 'a)" by (rule keyed_key)
  from BubbleSort_sorts [OF k, of vec]
  have 1: "\<exists>ys. BubbleSort vec = Inr ys \<and> stable_on key vec ys" by blast
  from InsertionSort_sorts [OF k, of vec]
  have 2: "\<exists>ys. InsertionSort vec = Inr ys \<and> stable_on key vec ys" by blast
  from MergeSort_sorts [OF k, of z vec]
  have 3: "\<exists>ys. MergeSort z vec = Inr ys \<and> stable_on key vec ys" by blast
  from 1 2 3 show ?thesis
    by (simp add: GeneralCountingSort_on_stable IntRadixSort_on_stable StringRadixSort_on_stable)
qed

theorem stable_sorts_keep_order_witness:
  "BubbleSort [Tagged (5::int) 0, Tagged 3 1, Tagged 3 2, Tagged 1 3]
     = Inr [Tagged 1 3, Tagged 3 1, Tagged 3 2, Tagged 5 0]
   \<and> InsertionSort [Tagged (5::int) 0, Tagged 3 1, Tagged 3 2, Tagged 1 3]
     = Inr [Tagged 1 3, Tagged 3 1, Tagged 3 2, Tagged 5 0]
   \<and> MergeSort (Tagged 0 0) [Tagged (5::int) 0, Tagged 3 1, Tagged 3 2, Tagged 1 3]
     = Inr [Tagged 1 3, Tagged 3 1, Tagged 3 2, Tagged 5 0]
   \<and> GeneralCountingSort_on key (Tagged 0 0) [Tagged 5 0, Tagged 3 1, Tagged 3 2, Tagged 1 3]
     = Inr [Tagged 1 3, Tagged 3 1, Tagged 3 2, Tagged 5 0]
   \<and> IntRadixSort_on key (Tagged 0 0) [Tagged 25 0, Tagged 13 1, Tagged 13 2, Tagged 1 3]
     = Inr [Tagged 1 3, Tagged 13 1, Tagged 13 2, Tagged 25 0]
   \<and> StringRadixSort_on key (Tagged [] 0) [Tagged ''b'' 0, Tagged ''ab'' 1, Tagged ''ab'' 2, Tagged ''a'' 3]
     = Inr [Tagged ''a'' 3, Tagged ''ab'' 1, Tagged ''ab'' 2, Tagged ''b'' 0]"
proof -
  let ?v = "[Tagged (5::int) 0, Tagged 3 1, Tagged 3 2, Tagged 1 3]"
  let ?n = "[Tagged (5::uint) 0, Tagged 3 1, Tagged 3 2, Tagged 1 3]"
  let ?r = "[Tagged (25::uint) 0, Tagged 13 1, Tagged 13 2, Tagged 1 3]"
  let ?s = "[Tagged ''b'' 0, Tagged ''ab'' 1, Tagged ''ab'' 2, Tagged ''a'' 3]"
  note st = stable_sorts_keep_order [of ?v "Tagged 0 0" "Tagged 0 0" ?n "Tagged [] 0" ?s]
  note sr = stable_sorts_keep_order [of ?v "Tagged 0 0" "Tagged 0 0" ?r "Tagged [] 0" ?s]
  have k: "keyed (key :: int tagged \<Rightarrow> int)" by (rule keyed_key)
  have sv: "sort_key key ?v = [Tagged 1 3, Tagged 3 1, Tagged 3 2, Tagged 5 0]"
    by simp
  have sn: "sort_key key ?n = [Tagged 1 3, Tagged 3 1, Tagged 3 2, Tagged 5 0]"
    by (simp add: word_le_nat_alt)
  have sr': "sort_key key ?r = [Tagged 1 3, Tagged 13 1, Tagged 13 2, Tagged 25 0]"
    by (simp add: word_le_nat_alt)
  have ss: "sort_key key ?s = [Tagged ''a'' 3, Tagged ''ab'' 1, Tagged ''ab'' 2, Tagged ''b'' 0]"
    by simp
  have 1: "BubbleSort ?v = Inr (sort_key key ?v)"
    using st BubbleSort_sorts [OF k, of ?v] by (auto dest: stable_sorted_sort_key)
  have 2: "InsertionSort ?v = Inr (sort_key key ?v)"
    using st InsertionSort_sorts [OF k, of ?v] by (auto dest: stable_sorted_sort_key)
  have 3: "MergeSort (Tagged 0 0) ?v = Inr (sort_key key ?v)"
    using st MergeSort_sorts [OF k, of "Tagged 0 0" ?v] by (auto dest: stable_sorted_sort_key)
  have "\<forall>x\<in>set ?n. unat (key x) < 2 ^ 45" by simp
  from GeneralCountingSort_on_sorts [OF this, of "Tagged 0 0"]
  have 4: "GeneralCountingSort_on key (Tagged 0 0) ?n = Inr (sort_key key ?n)"
    using st by (auto dest: stable_sorted_sort_key)
  have "\<forall>x\<in>set ?r. unat (key x) < 10 ^ 19" by simp
  from IntRadixSort_on_sorts [OF this, of "Tagged 0 0"]
  have 5: "IntRadixSort_on key (Tagged 0 0) ?r = Inr (sort_key key ?r)"
    using sr by (auto dest: stable_sorted_sort_key)
  have "\<forall>x\<in>set ?s. ascii (key x)" by (simp add: ascii_def)
  from StringRadixSort_on_sorts [OF this, of "Tagged [] 0"]
  have 6: "StringRadixSort_on key (Tagged [] 0) ?s = Inr (sort_key key ?s)"
    using st by (auto dest: stable_sorted_sort_key)
  from 1 2 3 4 5 6 show ?thesis
    by (simp only: sv sn sr' ss)
qed

end
